theory Spec2Isabelle
  imports Main "HOL-Library.AList" "HOL-Library.Multiset" "HOL-Library.List_Lexorder"
    "HOL-Library.Char_ord"
begin

section \<open>Strings of the Go standard library, on bytes\<close>

text \<open>
  A Go string is a sequence of bytes, and \<open>len\<close> counts bytes; so a string is a
  \<^typ>\<open>char list\<close> here and \<open>len\<close> is \<^const>\<open>length\<close>.  The functions of package
  \<open>strings\<close>, \<open>strconv\<close> and \<open>regexp\<close> that \<open>pkg/pdf/parser.go\<close> calls are written
  out below on bytes.
\<close>

fun HasPrefix :: "string \<Rightarrow> string \<Rightarrow> bool" where
  "HasPrefix s [] = True"
| "HasPrefix [] (p # ps) = False"
| "HasPrefix (c # cs) (p # ps) = (c = p \<and> HasPrefix cs ps)"

text \<open>\<open>strings.Contains(s, substr)\<close>: \<open>substr\<close> starts at some position of \<open>s\<close>.\<close>

fun Contains :: "string \<Rightarrow> string \<Rightarrow> bool" where
  "Contains [] sub = (sub = [])"
| "Contains (c # cs) sub = (HasPrefix (c # cs) sub \<or> Contains cs sub)"

text \<open>\<open>strings.ContainsRune(s, r)\<close> for an ASCII rune \<open>r\<close>, which is one byte.\<close>

definition ContainsRune :: "string \<Rightarrow> char \<Rightarrow> bool" where
  "ContainsRune s r = (r \<in> set s)"

text \<open>
  \<open>strings.TrimSpace\<close> removes the runes with Unicode's White Space property from both
  ends.  In UTF-8 these are the six ASCII bytes below, the two-byte encodings of U+0085 and
  U+00A0, and the three-byte encodings of U+1680, U+2000 to U+200A, U+2028, U+2029, U+202F,
  U+205F and U+3000.  A byte sequence that is not a valid encoding decodes to U+FFFD, which
  is no space, so trimming stops there.
\<close>

definition asciiSpace :: "char \<Rightarrow> bool" where
  "asciiSpace c = (c \<in> {CHR 0x09, CHR 0x0A, CHR 0x0B, CHR 0x0C, CHR 0x0D, CHR 0x20})"

definition space2 :: "char \<Rightarrow> char \<Rightarrow> bool" where
  "space2 a b = (a = CHR 0xC2 \<and> (b = CHR 0x85 \<or> b = CHR 0xA0))"

definition space3 :: "char \<Rightarrow> char \<Rightarrow> char \<Rightarrow> bool" where
  "space3 a b c =
     ((a = CHR 0xE1 \<and> b = CHR 0x9A \<and> c = CHR 0x80) \<or>
      (a = CHR 0xE2 \<and> b = CHR 0x80 \<and>
         c \<in> {CHR 0x80, CHR 0x81, CHR 0x82, CHR 0x83, CHR 0x84, CHR 0x85, CHR 0x86,
              CHR 0x87, CHR 0x88, CHR 0x89, CHR 0x8A, CHR 0xA8, CHR 0xA9, CHR 0xAF}) \<or>
      (a = CHR 0xE2 \<and> b = CHR 0x81 \<and> c = CHR 0x9F) \<or>
      (a = CHR 0xE3 \<and> b = CHR 0x80 \<and> c = CHR 0x80))"

fun TrimLeft :: "string \<Rightarrow> string" where
  "TrimLeft (a # b # c # s) =
     (if asciiSpace a then TrimLeft (b # c # s)
      else if space2 a b then TrimLeft (c # s)
      else if space3 a b c then TrimLeft s
      else a # b # c # s)"
| "TrimLeft [a, b] =
     (if asciiSpace a then TrimLeft [b] else if space2 a b then [] else [a, b])"
| "TrimLeft [a] = (if asciiSpace a then [] else [a])"
| "TrimLeft [] = []"

text \<open>The same from the right end, on the reversed string: the last byte comes first.\<close>

fun TrimLeftRev :: "string \<Rightarrow> string" where
  "TrimLeftRev (c # b # a # s) =
     (if asciiSpace c then TrimLeftRev (b # a # s)
      else if space2 b c then TrimLeftRev (a # s)
      else if space3 a b c then TrimLeftRev s
      else c # b # a # s)"
| "TrimLeftRev [c, b] =
     (if asciiSpace c then TrimLeftRev [b] else if space2 b c then [] else [c, b])"
| "TrimLeftRev [c] = (if asciiSpace c then [] else [c])"
| "TrimLeftRev [] = []"

definition TrimRight :: "string \<Rightarrow> string" where
  "TrimRight s = rev (TrimLeftRev (rev s))"

definition TrimSpace :: "string \<Rightarrow> string" where
  "TrimSpace s = TrimRight (TrimLeft s)"

text \<open>\<open>strings.Split(text, "\n")\<close>: the pieces between line feeds, at least one piece.\<close>

fun Split :: "string \<Rightarrow> string list" where
  "Split [] = [[]]"
| "Split (c # cs) =
     (if c = CHR 0x0A then [] # Split cs
      else (case Split cs of l # ls \<Rightarrow> (c # l) # ls | [] \<Rightarrow> [[c]]))"

text \<open>
  \<open>strings.ReplaceAll(s, "  ", " ")\<close>: one pass from the left over the occurrences of
  two blanks that do not overlap.
\<close>

fun ReplaceAllDoubleSpace :: "string \<Rightarrow> string" where
  "ReplaceAllDoubleSpace (a # b # s) =
     (if a = CHR '' '' \<and> b = CHR '' '' then CHR '' '' # ReplaceAllDoubleSpace s
      else a # ReplaceAllDoubleSpace (b # s))"
| "ReplaceAllDoubleSpace s = s"

text \<open>
  \<open>strconv.Atoi\<close> on a string of decimal digits (the only strings the parser passes):
  the value, or an error when it does not fit Go's 64-bit \<open>int\<close>.
\<close>

definition digitVal :: "char \<Rightarrow> int" where
  "digitVal c = int (of_char c) - 48"

definition Atoi :: "string \<Rightarrow> int option" where
  "Atoi ds =
     (let v = foldl (\<lambda>a c. 10 * a + digitVal c) 0 ds
      in if ds \<noteq> [] \<and> v \<le> 9223372036854775807 then Some v else None)"

section \<open>The regular expressions of parseText\<close>

text \<open>
  Go's \<open>regexp\<close> has \<open>\s\<close> = \<open>[\t\n\f\r ]\<close>, \<open>\d\<close> = \<open>[0-9]\<close>, \<open>.\<close> = any character but
  line feed, and \<open>$\<close> = the end of the text.  Each pattern of the parser is a chain in
  which a repetition is followed by a character outside its class, so the leftmost-first
  match is the one that takes every repetition as far as it goes; the one exception is
  \<open>\s+(.+)$\<close>, written out in \<open>questionWithTextPattern\<close>.
\<close>

definition isS :: "char \<Rightarrow> bool" where
  "isS c = (c \<in> {CHR 0x09, CHR 0x0A, CHR 0x0C, CHR 0x0D, CHR 0x20})"

definition isD :: "char \<Rightarrow> bool" where
  "isD c = (c \<in> set ''0123456789'')"

definition isAF :: "char \<Rightarrow> bool" where
  "isAF c = (c \<in> set ''abcdef'')"

definition noLF :: "string \<Rightarrow> bool" where
  "noLF s = (CHR 0x0A \<notin> set s)"

text \<open>\<open>^\s*$\<close>\<close>

definition emptyLinePattern :: "string \<Rightarrow> bool" where
  "emptyLinePattern s = list_all isS s"

text \<open>\<open>^\s*(\d+)\.\s*$\<close>, returning the group \<open>matches[1]\<close>.\<close>

definition questionOnlyPattern :: "string \<Rightarrow> string option" where
  "questionOnlyPattern s =
     (let r = dropWhile isS s; d = takeWhile isD r
      in if d = [] then None
         else (case dropWhile isD r of
                 [] \<Rightarrow> None
               | c # t \<Rightarrow> if c = CHR ''.'' \<and> list_all isS t then Some d else None))"

text \<open>
  \<open>^\s*(\d+)\.\s+(.+)$\<close>, returning \<open>(matches[1], matches[2])\<close>.  \<open>\s+\<close> takes all the
  white space after the dot when something follows it; when nothing follows, it gives its
  last character back to \<open>(.+)\<close>.
\<close>

definition questionWithTextPattern :: "string \<Rightarrow> (string \<times> string) option" where
  "questionWithTextPattern s =
     (let r = dropWhile isS s; d = takeWhile isD r
      in if d = [] then None
         else (case dropWhile isD r of
                 [] \<Rightarrow> None
               | c # t \<Rightarrow>
                   if c \<noteq> CHR ''.'' then None
                   else (let w = takeWhile isS t; m = dropWhile isS t
                         in if w = [] then None
                            else if m \<noteq> [] then (if noLF m then Some (d, m) else None)
                            else if 2 \<le> length w \<and> last w \<noteq> CHR 0x0A
                                 then Some (d, [last w]) else None)))"

text \<open>\<open>([a-f])\)\s*(.*)$\<close> at the start of \<open>r\<close>: the tail shared by the two option patterns.\<close>

definition optionBody :: "string \<Rightarrow> (string \<times> string) option" where
  "optionBody r =
     (case r of
        l # p # t \<Rightarrow>
          if isAF l \<and> p = CHR '')'' \<and> noLF (dropWhile isS t)
          then Some ([l], dropWhile isS t) else None
      | _ \<Rightarrow> None)"

text \<open>\<open>^\s*([a-f])\)\s*(.*)$\<close>\<close>

definition optionLinePattern :: "string \<Rightarrow> (string \<times> string) option" where
  "optionLinePattern s = optionBody (dropWhile isS s)"

text \<open>\<open>^\s*X\s+([a-f])\)\s*(.*)$\<close>\<close>

definition optionWithXPattern :: "string \<Rightarrow> (string \<times> string) option" where
  "optionWithXPattern s =
     (case dropWhile isS s of
        [] \<Rightarrow> None
      | c # t \<Rightarrow>
          if c = CHR ''X'' \<and> takeWhile isS t \<noteq> [] then optionBody (dropWhile isS t)
          else None)"

text \<open>\<open>^\s*X\s*$\<close>\<close>

definition justXPattern :: "string \<Rightarrow> bool" where
  "justXPattern s =
     (case dropWhile isS s of [] \<Rightarrow> False | c # t \<Rightarrow> c = CHR ''X'' \<and> list_all isS t)"

text \<open>\<open>^\s*\d+\.\d+\s+\<close>, which may match a proper prefix of the line.\<close>

definition sectionHeaderPattern :: "string \<Rightarrow> bool" where
  "sectionHeaderPattern s =
     (let r = dropWhile isS s
      in takeWhile isD r \<noteq> [] \<and>
         (case dropWhile isD r of
            [] \<Rightarrow> False
          | c # t \<Rightarrow>
              c = CHR ''.'' \<and> takeWhile isD t \<noteq> [] \<and>
              (case dropWhile isD t of [] \<Rightarrow> False | e # u \<Rightarrow> isS e)))"

text \<open>
  \<open>ReplaceAllString(s, "")\<close> for a pattern that ends in \<open>$\<close>: a match reaches the end of
  the text, so there is at most one, and it starts at the leftmost position from which the
  rest of the text matches.  \<open>m\<close> decides whether a whole suffix matches the pattern.
\<close>

fun cutSuffix :: "(string \<Rightarrow> bool) \<Rightarrow> string \<Rightarrow> string" where
  "cutSuffix m [] = []"
| "cutSuffix m (c # cs) = (if m (c # cs) then [] else c # cutSuffix m cs)"

text \<open>\<open>\s+X\s+[a-f]\)\s*$\<close> on a whole suffix.\<close>

definition trailingXOption :: "string \<Rightarrow> bool" where
  "trailingXOption s =
     (takeWhile isS s \<noteq> [] \<and>
      (case dropWhile isS s of
         [] \<Rightarrow> False
       | c # t \<Rightarrow>
           c = CHR ''X'' \<and> takeWhile isS t \<noteq> [] \<and>
           (case dropWhile isS t of
              l # p # u \<Rightarrow> isAF l \<and> p = CHR '')'' \<and> list_all isS u
            | _ \<Rightarrow> False)))"

text \<open>\<open>\s+X\s+[a-f]\).*$\<close> on a whole suffix.\<close>

definition trailingXOptionRest :: "string \<Rightarrow> bool" where
  "trailingXOptionRest s =
     (takeWhile isS s \<noteq> [] \<and>
      (case dropWhile isS s of
         [] \<Rightarrow> False
       | c # t \<Rightarrow>
           c = CHR ''X'' \<and> takeWhile isS t \<noteq> [] \<and>
           (case dropWhile isS t of
              l # p # u \<Rightarrow> isAF l \<and> p = CHR '')'' \<and> noLF u
            | _ \<Rightarrow> False)))"

text \<open>\<open>\s+X\s*$\<close> on a whole suffix.\<close>

definition trailingX :: "string \<Rightarrow> bool" where
  "trailingX s =
     (takeWhile isS s \<noteq> [] \<and>
      (case dropWhile isS s of [] \<Rightarrow> False | c # t \<Rightarrow> c = CHR ''X'' \<and> list_all isS t))"

text \<open>\<open>\s+[a-f]\)\s*$\<close> on a whole suffix.\<close>

definition trailingLetter :: "string \<Rightarrow> bool" where
  "trailingLetter s =
     (takeWhile isS s \<noteq> [] \<and>
      (case dropWhile isS s of
         l # p # u \<Rightarrow> isAF l \<and> p = CHR '')'' \<and> list_all isS u
       | _ \<Rightarrow> False))"

section \<open>The data model of pkg/models\<close>

record Option =
  Letter :: string
  Text :: string
  Correct :: bool

record Question =
  ID :: int
  QText :: string
  Options :: "Option list"
  Category :: string

record QuestionCatalog =
  Title :: string
  Year :: int
  State :: string
  Subject :: string
  TotalCount :: int
  Questions :: "Question list"
  LastModified :: string

text \<open>
  (Field \<open>Text\<close> of \<open>Question\<close> is \<open>QText\<close> here, since a record field is a constant and
  \<open>Option\<close> has taken the name.)
\<close>

section \<open>parseText\<close>

text \<open>
  A raw question of the parser.  Go's \<open>map[string]*models.Option\<close> and
  \<open>map[int]*rawQuestion\<close> are association lists with one entry for each key
  (\<^const>\<open>AList.update\<close> replaces the entry of a key that is present); every pointer is
  stored under one key only, so the values are kept in the lists themselves.  Field
  \<open>text\<close> is \<open>rtext\<close> here.
\<close>

record rawQuestion =
  number :: int
  rtext :: string
  options :: "(string \<times> Option) list"

definition newRawQuestion :: "int \<Rightarrow> string \<Rightarrow> rawQuestion" where
  "newRawQuestion n t = \<lparr>number = n, rtext = t, options = []\<rparr>"

text \<open>The local variables of \<open>parseText\<close> that the loop over the lines changes.\<close>

record parserState =
  rawQuestions :: "(int \<times> rawQuestion) list"
  lastQuestionNum :: int
  currentCategory :: string
  nextOptionIsCorrect :: bool

definition initialState :: "string \<Rightarrow> parserState" where
  "initialState cat =
     \<lparr>rawQuestions = [], lastQuestionNum = 0, currentCategory = cat,
      nextOptionIsCorrect = False\<rparr>"

subsection \<open>The header skip\<close>

definition categoryMarker :: "string \<Rightarrow> bool" where
  "categoryMarker l = (Contains l ''Sachgebiet'' \<and> Contains l '':'')"

text \<open>
  \<open>for i := 0; i < len(lines); i++\<close>: the index of the first line that the section header
  pattern matches, if there is one.
\<close>

function findStart :: "string list \<Rightarrow> nat \<Rightarrow> nat option" where
  "findStart lines i =
     (if i < length lines then
        (if sectionHeaderPattern (TrimSpace (lines ! i)) then Some i
         else findStart lines (i + 1))
      else None)"
  by pat_completeness auto
termination
  by (relation "measure (\<lambda>(lines, i). length lines - i)") auto

declare findStart.simps [simp del]

text \<open>
  \<open>for j := i - 1; j >= 0 && j >= i-50; j--\<close>: the nearest category line among the 50
  lines before the header.
\<close>

function seedCategory :: "string list \<Rightarrow> int \<Rightarrow> int \<Rightarrow> string option" where
  "seedCategory lines i j =
     (if j \<ge> 0 \<and> j \<ge> i - 50 then
        (if categoryMarker (TrimSpace (lines ! nat j)) then Some (TrimSpace (lines ! nat j))
         else seedCategory lines i (j - 1))
      else None)"
  by pat_completeness auto
termination
  by (relation "measure (\<lambda>(lines, i, j). nat (j + 1))") auto

declare seedCategory.simps [simp del]

text \<open>The start index and the category after the first loop.\<close>

definition headerSkip :: "string list \<Rightarrow> nat \<times> string" where
  "headerSkip lines =
     (case findStart lines 0 of
        None \<Rightarrow> (0, [])
      | Some i \<Rightarrow>
          (i, case seedCategory lines (int i) (int i - 1) of None \<Rightarrow> [] | Some c \<Rightarrow> c))"

subsection \<open>Collecting the lines that continue a question or an option\<close>

text \<open>
  The loops \<open>for j := i + 1; j < len(lines) && j < i+cap; j++\<close>.  They differ in \<open>cap\<close>
  and in the lines that stop them; the result is the list of the lines that the loop
  appends, in order, and \<open>appendLines\<close> is its \<open>text += " " + nextLine\<close>.
\<close>

function collectLines ::
  "(string \<Rightarrow> bool) \<Rightarrow> nat \<Rightarrow> string list \<Rightarrow> nat \<Rightarrow> nat \<Rightarrow> string list" where
  "collectLines stop cap lines i j =
     (if j < length lines \<and> j < i + cap then
        (if emptyLinePattern (TrimSpace (lines ! j)) then collectLines stop cap lines i (j + 1)
         else if stop (TrimSpace (lines ! j)) then []
         else TrimSpace (lines ! j) # collectLines stop cap lines i (j + 1))
      else [])"
  by pat_completeness auto
termination
  by (relation "measure (\<lambda>(stop, cap, lines, i, j). i + cap - j)") auto

declare collectLines.simps [simp del]

definition appendLines :: "string \<Rightarrow> string list \<Rightarrow> string" where
  "appendLines t ls = foldl (\<lambda>acc l. acc @ '' '' @ l) t ls"

definition isOption :: "string \<Rightarrow> bool" where
  "isOption l = (optionLinePattern l \<noteq> None)"

definition isOptionWithX :: "string \<Rightarrow> bool" where
  "isOptionWithX l = (optionWithXPattern l \<noteq> None)"

definition isQuestion :: "string \<Rightarrow> bool" where
  "isQuestion l = (questionOnlyPattern l \<noteq> None \<or> questionWithTextPattern l \<noteq> None)"

text \<open>What stops the loop after a line with a question number only (cap 15).\<close>

definition questionOnlyStop :: "string \<Rightarrow> bool" where
  "questionOnlyStop l = ((isOption l \<or> isOptionWithX l \<or> justXPattern l) \<or> isQuestion l)"

text \<open>What stops the loop after a question with text on its line (cap 10).\<close>

definition questionWithTextStop :: "string \<Rightarrow> bool" where
  "questionWithTextStop l = (isOption l \<or> isQuestion l)"

text \<open>What stops the two loops after an option line (cap 8).\<close>

definition optionStop :: "string \<Rightarrow> bool" where
  "optionStop l =
     ((isOption l \<or> isOptionWithX l) \<or> isQuestion l \<or>
      (Contains l ''Sachgebiet'' \<or> Contains l ''Stand:''))"

definition questionOnlyLines :: "string list \<Rightarrow> nat \<Rightarrow> string list" where
  "questionOnlyLines lines i = collectLines questionOnlyStop 15 lines i (i + 1)"

definition questionWithTextLines :: "string list \<Rightarrow> nat \<Rightarrow> string list" where
  "questionWithTextLines lines i = collectLines questionWithTextStop 10 lines i (i + 1)"

definition optionLines :: "string list \<Rightarrow> nat \<Rightarrow> string list" where
  "optionLines lines i = collectLines optionStop 8 lines i (i + 1)"

text \<open>The text of a question whose number stands alone on line \<open>i\<close>.\<close>

definition questionOnlyText :: "string list \<Rightarrow> nat \<Rightarrow> string" where
  "questionOnlyText lines i =
     cutSuffix trailingXOption (TrimSpace (appendLines [] (questionOnlyLines lines i)))"

text \<open>The text of a question that starts with \<open>m2\<close> on line \<open>i\<close>.\<close>

definition questionWithTextText :: "string list \<Rightarrow> nat \<Rightarrow> string \<Rightarrow> string" where
  "questionWithTextText lines i m2 =
     TrimSpace (cutSuffix trailingXOptionRest (ReplaceAllDoubleSpace
       (TrimSpace (appendLines (TrimSpace m2) (questionWithTextLines lines i)))))"

text \<open>The text of an option that starts with \<open>m2\<close> on line \<open>i\<close> (both option branches).\<close>

definition optionText :: "string list \<Rightarrow> nat \<Rightarrow> string \<Rightarrow> string" where
  "optionText lines i m2 =
     TrimSpace (cutSuffix trailingLetter (cutSuffix trailingX
       (TrimSpace (appendLines (TrimSpace m2) (optionLines lines i)))))"

subsection \<open>One round of the loop over the lines\<close>

text \<open>A block of the loop body ends in \<open>continue\<close> or falls through to the next block.\<close>

datatype 'a flow = Continue 'a | Next 'a

definition boilerplate :: "string \<Rightarrow> bool" where
  "boilerplate l =
     (Contains l ''Stand:'' \<or> Contains l ''Seite'' \<or>
      Contains l ''Zweitkorrektor'' \<or> Contains l ''HERAUSGEBER'')"

definition putQuestion :: "int \<Rightarrow> string \<Rightarrow> parserState \<Rightarrow> parserState" where
  "putQuestion qNum qText s =
     (if length qText > 5
      then s\<lparr>rawQuestions := AList.update qNum (newRawQuestion qNum qText) (rawQuestions s)\<rparr>
      else s)"

text \<open>The block "question number only".\<close>

definition questionOnlyBlock ::
  "string list \<Rightarrow> nat \<Rightarrow> string \<Rightarrow> parserState \<Rightarrow> parserState flow" where
  "questionOnlyBlock lines i trimmedLine s =
     (case questionOnlyPattern trimmedLine of
        None \<Rightarrow> Next s
      | Some m1 \<Rightarrow>
          (case Atoi m1 of
             None \<Rightarrow> Continue s
           | Some qNum \<Rightarrow>
               if qNum < 1 then Continue s
               else Next (putQuestion qNum (questionOnlyText lines i)
                            (s\<lparr>lastQuestionNum := qNum\<rparr>))))"

text \<open>The block "question with text on same line".\<close>

definition questionWithTextBlock ::
  "string list \<Rightarrow> nat \<Rightarrow> string \<Rightarrow> parserState \<Rightarrow> parserState flow" where
  "questionWithTextBlock lines i trimmedLine s =
     (case questionWithTextPattern trimmedLine of
        None \<Rightarrow> Next s
      | Some (m1, m2) \<Rightarrow>
          (case Atoi m1 of
             None \<Rightarrow> Continue s
           | Some qNum \<Rightarrow>
               if qNum < 1 then Continue s
               else if \<not> ContainsRune m2 CHR ''?'' then Continue s
               else Next (putQuestion qNum (questionWithTextText lines i m2)
                            (s\<lparr>lastQuestionNum := qNum\<rparr>))))"

text \<open>\<open>rawQuestions[lastQuestionNum].options[letter] = &models.Option{...}\<close>\<close>

definition putOption ::
  "rawQuestion \<Rightarrow> string \<Rightarrow> string \<Rightarrow> bool \<Rightarrow> parserState \<Rightarrow> parserState" where
  "putOption rq letter optText isCorrect s =
     s\<lparr>rawQuestions :=
         AList.update (lastQuestionNum s)
           (rq\<lparr>options :=
                 AList.update letter \<lparr>Letter = letter, Text = optText, Correct = isCorrect\<rparr>
                   (options rq)\<rparr>)
           (rawQuestions s)\<rparr>"

text \<open>The block "handle options".\<close>

definition optionBlock :: "string list \<Rightarrow> nat \<Rightarrow> string \<Rightarrow> parserState \<Rightarrow> parserState" where
  "optionBlock lines i trimmedLine s =
     (if lastQuestionNum s > 0 then
        (case map_of (rawQuestions s) (lastQuestionNum s) of
           None \<Rightarrow> s
         | Some rq \<Rightarrow>
             (case optionWithXPattern trimmedLine of
                Some (letter, m2) \<Rightarrow>
                  (putOption rq letter (optionText lines i m2) True s)
                    \<lparr>nextOptionIsCorrect := False\<rparr>
              | None \<Rightarrow>
                  (case optionLinePattern trimmedLine of
                     Some (letter, m2) \<Rightarrow>
                       putOption rq letter (optionText lines i m2) (nextOptionIsCorrect s)
                         (s\<lparr>nextOptionIsCorrect := False\<rparr>)
                   | None \<Rightarrow> s)))
      else s)"

text \<open>The body of \<open>for i := startIdx; i < len(lines); i++\<close> for the line \<open>i\<close>.\<close>

definition step :: "string list \<Rightarrow> nat \<Rightarrow> parserState \<Rightarrow> parserState" where
  "step lines i s =
     (let trimmedLine = TrimSpace (lines ! i) in
      if emptyLinePattern trimmedLine then s
      else
        (let s1 = (if categoryMarker trimmedLine then s\<lparr>currentCategory := trimmedLine\<rparr>
                   else s) in
         if boilerplate trimmedLine then s1
         else
           (case questionOnlyBlock lines i trimmedLine s1 of
              Continue s2 \<Rightarrow> s2
            | Next s2 \<Rightarrow>
                (case questionWithTextBlock lines i trimmedLine s2 of
                   Continue s3 \<Rightarrow> s3
                 | Next s3 \<Rightarrow>
                     if lastQuestionNum s3 > 0 \<and> justXPattern trimmedLine
                     then s3\<lparr>nextOptionIsCorrect := True\<rparr>
                     else optionBlock lines i trimmedLine s3))))"

function mainLoop :: "string list \<Rightarrow> nat \<Rightarrow> parserState \<Rightarrow> parserState" where
  "mainLoop lines i s =
     (if i < length lines then mainLoop lines (i + 1) (step lines i s) else s)"
  by pat_completeness auto
termination
  by (relation "measure (\<lambda>(lines, i, s). length lines - i)") auto

declare mainLoop.simps [simp del]

subsection \<open>Building the catalog\<close>

text \<open>
  The "simple bubble sort" of the question numbers:
  \<open>for i := 0; i < n; i++ { for j := i + 1; j < n; j++ { if a[j] < a[i] { swap } } }\<close>.
\<close>

function sortInner :: "int list \<Rightarrow> nat \<Rightarrow> nat \<Rightarrow> int list" where
  "sortInner a i j =
     (if j < length a then
        sortInner (if a ! j < a ! i then a[i := a ! j, j := a ! i] else a) i (j + 1)
      else a)"
  by pat_completeness auto
termination
  by (relation "measure (\<lambda>(a, i, j). length a - j)") auto

declare sortInner.simps [simp del]

lemma length_sortInner: "length (sortInner a i j) = length a"
proof (induction a i j rule: sortInner.induct)
  case (1 a i j)
  show ?case
  proof (cases "j < length a")
    case True
    then show ?thesis
      using "1.IH" by (subst sortInner.simps) simp
  next
    case False
    then show ?thesis by (subst sortInner.simps) simp
  qed
qed

function sortOuter :: "int list \<Rightarrow> nat \<Rightarrow> int list" where
  "sortOuter a i = (if i < length a then sortOuter (sortInner a i (i + 1)) (i + 1) else a)"
  by pat_completeness auto
termination
  by (relation "measure (\<lambda>(a, i). length a - i)") (auto simp: length_sortInner)

declare sortOuter.simps [simp del]

definition letters :: "string list" where
  "letters = [''a'', ''b'', ''c'', ''d'', ''e'', ''f'']"

text \<open>\<open>for _, letter := range letters { if opt, exists := ...; exists { append } }\<close>\<close>

definition buildOptions :: "rawQuestion \<Rightarrow> Option list" where
  "buildOptions rq =
     concat (map (\<lambda>letter. case map_of (options rq) letter of
                              None \<Rightarrow> [] | Some opt \<Rightarrow> [opt]) letters)"

text \<open>The last loop, over the sorted question numbers.\<close>

fun buildQuestions :: "parserState \<Rightarrow> int list \<Rightarrow> Question list" where
  "buildQuestions s [] = []"
| "buildQuestions s (num # nums) =
     (case map_of (rawQuestions s) num of
        None \<Rightarrow> buildQuestions s nums
      | Some rq \<Rightarrow>
          if length (rtext rq) > 5 \<and> length (options rq) > 0
          then \<lparr>ID = number rq, QText = rtext rq, Options = buildOptions rq,
                Category = currentCategory s\<rparr> # buildQuestions s nums
          else buildQuestions s nums)"

text \<open>
  The end of \<open>parseText\<close>, from the state after the loop over the lines.  \<open>keys\<close> is
  the list of the keys of \<open>rawQuestions\<close> in the order in which
  \<open>for num := range rawQuestions\<close> yields them, which Go leaves open; \<open>now\<close> is what
  \<open>time.Now().Format(time.RFC3339)\<close> returns.  Every number in \<open>keys\<close> is a key of the
  map, so the case \<open>None\<close> of \<open>buildQuestions\<close> does not occur.
\<close>

definition buildCatalog :: "string \<Rightarrow> parserState \<Rightarrow> int list \<Rightarrow> QuestionCatalog" where
  "buildCatalog now s keys =
     (let qs = buildQuestions s (sortOuter keys 0)
      in \<lparr>Title = ''Jagdfragepr'' @ [CHR 0xC3, CHR 0xBC] @ ''fer Bayern'',
          Year = 2025,
          State = ''by'',
          Subject = ''Jagdwaffen, Jagd- und Fangger'' @ [CHR 0xC3, CHR 0xA4] @ ''te'',
          TotalCount = int (length qs),
          Questions = qs,
          LastModified = now\<rparr>)"

text \<open>The state of the parser when the loop over the lines of \<open>txt\<close> has ended.\<close>

definition finalState :: "string \<Rightarrow> parserState" where
  "finalState txt =
     (let lines = Split txt; (startIdx, cat) = headerSkip lines
      in mainLoop lines startIdx (initialState cat))"

text \<open>
  \<open>parseText\<close>, with the clock as an input and the keys of the map in the order of the
  association list.  The error that the Go function returns is always \<open>nil\<close>, so the
  result is the catalog.
\<close>

definition parseText :: "string \<Rightarrow> string \<Rightarrow> QuestionCatalog" where
  "parseText now txt =
     (let s = finalState txt in buildCatalog now s (map fst (rawQuestions s)))"

section \<open>Notions for the proofs\<close>

text \<open>The sorted question numbers of a state.\<close>

definition questionNums :: "parserState \<Rightarrow> int list" where
  "questionNums s = sortOuter (map fst (rawQuestions s)) 0"

text \<open>The state after the rounds of the loop for the lines \<open>i\<close> to \<open>j - 1\<close>.\<close>

definition runLines :: "string list \<Rightarrow> nat \<Rightarrow> nat \<Rightarrow> parserState \<Rightarrow> parserState" where
  "runLines lines i j s = foldl (\<lambda>s k. step lines k s) s [i..<j]"

text \<open>The state after the category check of a round.\<close>

definition withCategory :: "string \<Rightarrow> parserState \<Rightarrow> parserState" where
  "withCategory t s = (if categoryMarker t then s\<lparr>currentCategory := t\<rparr> else s)"

text \<open>The outer loop of the sort has put the first \<open>i\<close> places in their final order.\<close>

definition sortedUpTo :: "int list \<Rightarrow> nat \<Rightarrow> bool" where
  "sortedUpTo a i = (sorted (take i a) \<and> (\<forall>x\<in>set (take i a). \<forall>y\<in>set (drop i a). x \<le> y))"

text \<open>
  What holds of the raw questions all along: a question is stored under its number, which
  is at least 1, its text is longer than 5 bytes, an option is stored under its letter,
  which is one of a to f, and no key occurs twice.
\<close>

definition optionsOk :: "(string \<times> Option) list \<Rightarrow> bool" where
  "optionsOk os = list_all (\<lambda>(l, opt). Letter opt = l \<and> l \<in> set letters) os"

definition draftOk :: "int \<times> rawQuestion \<Rightarrow> bool" where
  "draftOk e = (number (snd e) = fst e \<and> 1 \<le> fst e \<and> 5 < length (rtext (snd e)) \<and>
                optionsOk (options (snd e)))"

definition draftsOk :: "parserState \<Rightarrow> bool" where
  "draftsOk s = (distinct (map fst (rawQuestions s)) \<and> list_all draftOk (rawQuestions s))"

text \<open>The test of the last loop on the raw question with number \<open>n\<close>.\<close>

definition keep :: "parserState \<Rightarrow> int \<Rightarrow> bool" where
  "keep s n = (case map_of (rawQuestions s) n of
                 None \<Rightarrow> False
               | Some rq \<Rightarrow> length (rtext rq) > 5 \<and> length (options rq) > 0)"

text \<open>The trimmed lines \<open>a\<close> to \<open>j - 1\<close> that are not blank.\<close>

definition nonBlankLines :: "string list \<Rightarrow> nat \<Rightarrow> nat \<Rightarrow> string list" where
  "nonBlankLines lines a j =
     filter (\<lambda>l. \<not> emptyLinePattern l) (map (\<lambda>k. TrimSpace (lines ! k)) [a..<j])"

text \<open>
  The number of characters (code points) of a string that is valid UTF-8: its bytes that
  are not continuation bytes \<open>10xxxxxx\<close>.  Go's \<open>len\<close> counts the bytes.
\<close>

definition characters :: "string \<Rightarrow> nat" where
  "characters s = length (filter (\<lambda>c. (of_char c :: nat) div 64 \<noteq> 2) s)"

text \<open>The text with the lines \<open>ls\<close>, each ended by a line feed (for the examples).\<close>

definition textOf :: "string list \<Rightarrow> string" where
  "textOf ls = concat (map (\<lambda>l. l @ [CHR 0x0A]) ls)"

text \<open>Inputs for the examples.\<close>

definition twoCategories :: "string list" where
  "twoCategories =
     [''1.1 Waffen'', ''1. Sachgebiet: Jagdwaffen'', ''1. Was ist das hier?'', ''a) foo'',
      ''2. Sachgebiet: Wildbiologie'', ''2. Was ist jenes dort?'', ''a) bar'']"

definition twoQuestions :: "string list" where
  "twoQuestions =
     [''3.1 Begriffe'', ''12.'', ''Was ist ein Jagdschein?'', ''X b) Eine Erlaubnis'',
      ''a) Ein Dokument'', ''7. Was ist das hier?'', ''a) Foo'', ''5. Wer darf jagen?'']"

definition markedOption :: "string list" where
  "markedOption =
     [''1.1 Intro'', ''7.'', ''Was ist das hier?'', ''X'', '''', ''a) Foo'', ''b) Bar'']"

definition shortQuestion :: "string list" where
  "shortQuestion =
     [''1.1 Intro'', ''7. Was ist das hier?'', ''a) foo'', ''8.'', ''Was?'', ''X'',
      ''a) Eins'', ''9. Was ist jenes dort?'', ''a) Zwei'']"

definition sameNumberTwice :: "string list" where
  "sameNumberTwice =
     [''1.1 Intro'', ''7. Was ist das hier?'', ''a) Foo'', ''7. Was ist jenes?'', ''b) Bar'']"

definition sameNumberShort :: "string list" where
  "sameNumberShort =
     [''1.1 Intro'', ''7. Was ist das hier?'', ''a) Foo'', ''7. Was?'', ''b) Bar'']"

definition optionThenDate :: "string list" where
  "optionThenDate = [''a) Foo'', ''und mehr'', ''Stand: 01.01.2025'', ''noch mehr'']"

definition questionThenDate :: "string list" where
  "questionThenDate = [''7.'', ''Wer? Stand: 2025'', ''Sachgebiet'', ''a) Ja'']"

definition inlineThenDate :: "string list" where
  "inlineThenDate = [''7. Wer?'', ''Stand: 2025'', ''Sachgebiet'', ''a) Ja'']"

definition fiveCharacters :: "string list" where
  "fiveCharacters = [''1.1 Intro'', ''7. '' @ [CHR 0xC3, CHR 0x96] @ ''fen?'', ''a) Ja'']"

definition shortDraft :: parserState where
  "shortDraft =
     \<lparr>rawQuestions =
        [(3, \<lparr>number = 3, rtext = ''Kurz'',
              options = [(''a'', \<lparr>Letter = ''a'', Text = ''Ja'', Correct = True\<rparr>)]\<rparr>),
         (4, \<lparr>number = 4, rtext = ''Lang genug'',
              options = [(''a'', \<lparr>Letter = ''a'', Text = ''Ja'', Correct = True\<rparr>)]\<rparr>)],
      lastQuestionNum = 4, currentCategory = [], nextOptionIsCorrect = False\<rparr>"

definition optionThenPage :: "string list" where
  "optionThenPage =
     [''1.1 Intro'', ''7. Was ist das hier?'', ''a) Foo'', ''Seite 3'',
      ''Zweitkorrektor: N.N.'', ''HERAUSGEBER'', ''b) Bar'']"

section \<open>What a line of a given shape cannot be\<close>

lemma HasPrefix_set: "HasPrefix s sub \<Longrightarrow> set sub \<subseteq> set s"
  by (induction s sub rule: HasPrefix.induct) auto

lemma Contains_set: "Contains s sub \<Longrightarrow> set sub \<subseteq> set s"
proof (induction s sub rule: Contains.induct)
  case (1 sub)
  then show ?case by simp
next
  case (2 c cs sub)
  from "2.prems" have "HasPrefix (c # cs) sub \<or> Contains cs sub" by simp
  then show ?case
  proof
    assume "HasPrefix (c # cs) sub"
    then show ?thesis by (rule HasPrefix_set)
  next
    assume "Contains cs sub"
    then have "set sub \<subseteq> set cs" by (rule "2.IH")
    then show ?thesis by auto
  qed
qed

lemma dropWhile_all: "list_all P xs \<Longrightarrow> dropWhile P xs = []"
  by (simp add: list_all_iff)

lemma justX_form:
  assumes "justXPattern t"
  shows "\<exists>r. dropWhile isS t = CHR ''X'' # r \<and> list_all isS r"
  using assms by (auto simp: justXPattern_def split: list.splits)

lemma justX_set:
  assumes "justXPattern t"
  shows "set t \<subseteq> {c. isS c} \<union> {CHR ''X''}"
proof -
  obtain r where r: "dropWhile isS t = CHR ''X'' # r" "list_all isS r"
    using justX_form [OF assms] by blast
  have "set t = set (takeWhile isS t) \<union> set (dropWhile isS t)"
    by (metis set_append takeWhile_dropWhile_id)
  moreover have "set (takeWhile isS t) \<subseteq> {c. isS c}"
    by (auto dest: set_takeWhileD)
  ultimately show ?thesis using r by (auto simp: list_all_iff)
qed

lemma justX_not_empty: "justXPattern t \<Longrightarrow> \<not> emptyLinePattern t"
  by (auto simp: emptyLinePattern_def dest!: justX_form dropWhile_all)

lemma justX_not_category: "justXPattern t \<Longrightarrow> \<not> categoryMarker t"
proof
  assume a: "justXPattern t" and c: "categoryMarker t"
  then have "CHR '':'' \<in> set t"
    using Contains_set [of t "'':''"] by (auto simp: categoryMarker_def)
  then show False using justX_set [OF a] by (auto simp: isS_def)
qed

lemma justX_not_boilerplate: "justXPattern t \<Longrightarrow> \<not> boilerplate t"
proof
  assume a: "justXPattern t" and c: "boilerplate t"
  then have "CHR ''S'' \<in> set t \<or> CHR ''Z'' \<in> set t \<or> CHR ''H'' \<in> set t"
    using Contains_set [of t "''Stand:''"] Contains_set [of t "''Seite''"]
      Contains_set [of t "''Zweitkorrektor''"] Contains_set [of t "''HERAUSGEBER''"]
    by (auto simp: boilerplate_def)
  then show False using justX_set [OF a] by (auto simp: isS_def)
qed

lemma justX_not_questionOnly: "justXPattern t \<Longrightarrow> questionOnlyPattern t = None"
  by (auto simp: questionOnlyPattern_def isD_def dest!: justX_form)

lemma justX_not_questionWithText: "justXPattern t \<Longrightarrow> questionWithTextPattern t = None"
  by (auto simp: questionWithTextPattern_def isD_def dest!: justX_form)

lemma justX_not_option: "justXPattern t \<Longrightarrow> optionLinePattern t = None"
  by (auto simp: optionLinePattern_def optionBody_def isAF_def dest!: justX_form split: list.splits)

lemma justX_not_optionWithX: "justXPattern t \<Longrightarrow> optionWithXPattern t = None"
  by (auto simp: optionWithXPattern_def optionBody_def dropWhile_all dest!: justX_form)

lemma step_justX:
  assumes "justXPattern (TrimSpace (lines ! i))"
  shows "step lines i s =
           (if lastQuestionNum s > 0 then s\<lparr>nextOptionIsCorrect := True\<rparr> else s)"
  using assms
  by (simp add: step_def Let_def justX_not_empty justX_not_category justX_not_boilerplate
      questionOnlyBlock_def questionWithTextBlock_def justX_not_questionOnly
      justX_not_questionWithText optionBlock_def)

text \<open>Lines whose first character after white space is a digit, or a letter a-f.\<close>

lemma questionOnly_digit:
  "questionOnlyPattern t = Some d \<Longrightarrow> \<exists>c r. dropWhile isS t = c # r \<and> isD c"
  by (cases "dropWhile isS t") (auto simp: questionOnlyPattern_def Let_def split: if_splits)

lemma questionWithText_digit:
  "questionWithTextPattern t = Some m \<Longrightarrow> \<exists>c r. dropWhile isS t = c # r \<and> isD c"
  by (cases "dropWhile isS t") (auto simp: questionWithTextPattern_def Let_def split: if_splits)

lemma option_letter_first:
  "optionLinePattern t = Some m \<Longrightarrow> \<exists>c r. dropWhile isS t = c # r \<and> isAF c"
  by (auto simp: optionLinePattern_def optionBody_def split: list.splits if_splits)

lemma first_not_empty: "dropWhile isS t = c # r \<Longrightarrow> \<not> emptyLinePattern t"
  by (auto simp: emptyLinePattern_def dest: dropWhile_all)

lemma digit_not_justX: "dropWhile isS t = c # r \<Longrightarrow> isD c \<Longrightarrow> \<not> justXPattern t"
  by (auto simp: justXPattern_def isD_def)

lemma digit_not_option: "dropWhile isS t = c # r \<Longrightarrow> isD c \<Longrightarrow> optionLinePattern t = None"
  by (auto simp: optionLinePattern_def optionBody_def isD_def isAF_def split: list.splits)

lemma digit_not_optionWithX:
  "dropWhile isS t = c # r \<Longrightarrow> isD c \<Longrightarrow> optionWithXPattern t = None"
  by (auto simp: optionWithXPattern_def isD_def)

lemma letter_not_justX: "dropWhile isS t = c # r \<Longrightarrow> isAF c \<Longrightarrow> \<not> justXPattern t"
  by (auto simp: justXPattern_def isAF_def)

lemma letter_not_optionWithX:
  "dropWhile isS t = c # r \<Longrightarrow> isAF c \<Longrightarrow> optionWithXPattern t = None"
  by (auto simp: optionWithXPattern_def isAF_def)

lemma letter_not_questionOnly:
  "dropWhile isS t = c # r \<Longrightarrow> isAF c \<Longrightarrow> questionOnlyPattern t = None"
  by (auto simp: questionOnlyPattern_def isAF_def isD_def)

lemma letter_not_questionWithText:
  "dropWhile isS t = c # r \<Longrightarrow> isAF c \<Longrightarrow> questionWithTextPattern t = None"
  by (auto simp: questionWithTextPattern_def isAF_def isD_def)

lemma questionOnly_then_no_mark:
  assumes "questionOnlyPattern t = Some d" "questionWithTextPattern t = Some (m1, m2)"
  shows "\<not> ContainsRune m2 CHR ''?''"
proof -
  let ?r = "dropWhile isS t"
  from assms(1) obtain u where u: "dropWhile isD ?r = CHR ''.'' # u" "list_all isS u"
    by (auto simp: questionOnlyPattern_def Let_def split: if_splits list.splits)
  then have "dropWhile isS u = []"
    by (simp add: list_all_iff)
  with assms(2) u(1) have m: "m2 = [last (takeWhile isS u)]" "takeWhile isS u \<noteq> []"
    by (auto simp: questionWithTextPattern_def Let_def split: if_splits)
  then have "last (takeWhile isS u) \<in> set (takeWhile isS u)" by simp
  then have "isS (last (takeWhile isS u))" by (rule set_takeWhileD [THEN conjunct2])
  with m show ?thesis by (auto simp: ContainsRune_def isS_def)
qed

section \<open>The sort of the question numbers\<close>

lemma take_sortInner: "i < j \<Longrightarrow> take i (sortInner a i j) = take i a"
proof (induction a i j rule: sortInner.induct)
  case (1 a i j)
  show ?case
  proof (cases "j < length a")
    case True
    with "1.prems" "1.IH" show ?thesis
      by (subst sortInner.simps) simp
  next
    case False
    then show ?thesis by (subst sortInner.simps) simp
  qed
qed

lemma mset_drop_swap:
  assumes "i < j" "j < length a"
  shows "mset (drop i (a[i := a ! j, j := a ! i])) = mset (drop i a)"
proof -
  have "drop i (a[i := a ! j, j := a ! i]) = (drop i a)[0 := a ! j, j - i := a ! i]"
    using assms by (simp add: drop_update_swap)
  also have "\<dots> = (drop i a)[0 := drop i a ! (j - i), j - i := drop i a ! 0]"
    using assms by simp
  also have "mset \<dots> = mset (drop i a)"
    using assms by (intro mset_swap) simp_all
  finally show ?thesis .
qed

lemma mset_drop_sortInner: "i < j \<Longrightarrow> mset (drop i (sortInner a i j)) = mset (drop i a)"
proof (induction a i j rule: sortInner.induct)
  case (1 a i j)
  show ?case
  proof (cases "j < length a")
    case True
    with "1.prems" "1.IH" show ?thesis
      by (subst sortInner.simps) (simp add: mset_drop_swap)
  next
    case False
    then show ?thesis by (subst sortInner.simps) simp
  qed
qed

lemma min_sortInner:
  "i < j \<Longrightarrow> \<forall>k. i < k \<and> k < j \<longrightarrow> a ! i \<le> a ! k \<Longrightarrow>
   i < k \<Longrightarrow> k < length a \<Longrightarrow> sortInner a i j ! i \<le> sortInner a i j ! k"
proof (induction a i j rule: sortInner.induct)
  case (1 a i j)
  show ?case
  proof (cases "j < length a")
    case True
    let ?b = "if a ! j < a ! i then a[i := a ! j, j := a ! i] else a"
    have len: "length ?b = length a" by simp
    have inv: "\<forall>k. i < k \<and> k < j + 1 \<longrightarrow> ?b ! i \<le> ?b ! k"
    proof (intro allI impI)
      fix k assume k: "i < k \<and> k < j + 1"
      show "?b ! i \<le> ?b ! k"
      proof (cases "k = j")
        case True
        with k \<open>j < length a\<close> "1.prems"(1) show ?thesis by (auto simp: nth_list_update)
      next
        case False
        with k have "k < j" by simp
        with k "1.prems"(2) have "a ! i \<le> a ! k" by blast
        with k \<open>k < j\<close> \<open>j < length a\<close> show ?thesis by (auto simp: nth_list_update)
      qed
    qed
    have "sortInner ?b i (j + 1) ! i \<le> sortInner ?b i (j + 1) ! k"
      using "1.IH" [OF True _ inv "1.prems"(3)] "1.prems"(1,4) len by simp
    with True show ?thesis by (subst (1 2) sortInner.simps) simp
  next
    case False
    with "1.prems" have "k < j" by simp
    with "1.prems" False show ?thesis by (subst (1 2) sortInner.simps) simp
  qed
qed

lemma sortedUpTo_step:
  assumes q: "sortedUpTo a i" and i: "i < length a"
  shows "sortedUpTo (sortInner a i (i + 1)) (i + 1)"
proof -
  let ?b = "sortInner a i (i + 1)"
  have len: "length ?b = length a" by (rule length_sortInner)
  have tk: "take i ?b = take i a" by (simp add: take_sortInner)
  have ms: "mset (drop i ?b) = mset (drop i a)" by (simp add: mset_drop_sortInner)
  then have st: "set (drop i ?b) = set (drop i a)" by (rule mset_eq_setD)
  have bi: "?b ! i \<in> set (drop i a)"
    using i len st by (metis Cons_nth_drop_Suc list.set_intros(1))
  have t1: "take (i + 1) ?b = take i a @ [?b ! i]"
    using i len tk by (simp add: take_Suc_conv_app_nth)
  have d1: "set (drop (i + 1) ?b) \<subseteq> set (drop i a)"
    using st by (metis Suc_eq_plus1 set_drop_subset_set_drop le_add1 plus_1_eq_Suc)
  have mn: "\<forall>y\<in>set (drop (i + 1) ?b). ?b ! i \<le> y"
  proof
    fix y assume "y \<in> set (drop (i + 1) ?b)"
    then obtain n where n: "n < length ?b - (i + 1)" "y = drop (i + 1) ?b ! n"
      by (metis in_set_conv_nth length_drop)
    then have "y = ?b ! (i + 1 + n)" by simp
    moreover have "?b ! i \<le> ?b ! (i + 1 + n)"
      using n len by (intro min_sortInner) auto
    ultimately show "?b ! i \<le> y" by simp
  qed
  show ?thesis
    unfolding sortedUpTo_def t1
    using q bi d1 mn by (auto simp: sortedUpTo_def sorted_append)
qed

lemma mset_sortInner: "i < j \<Longrightarrow> mset (sortInner a i j) = mset a"
proof -
  assume ij: "i < j"
  have "mset (sortInner a i j) = mset (take i (sortInner a i j)) + mset (drop i (sortInner a i j))"
    by (metis append_take_drop_id mset_append)
  also have "\<dots> = mset (take i a) + mset (drop i a)"
    using ij by (simp add: take_sortInner mset_drop_sortInner)
  also have "\<dots> = mset a"
    by (metis append_take_drop_id mset_append)
  finally show ?thesis .
qed

lemma sortOuter_sorts:
  "sortedUpTo a i \<Longrightarrow> sorted (sortOuter a i) \<and> mset (sortOuter a i) = mset a"
proof (induction a i rule: sortOuter.induct)
  case (1 a i)
  show ?case
  proof (cases "i < length a")
    case True
    have "sortedUpTo (sortInner a i (i + 1)) (i + 1)"
      using "1.prems" True by (rule sortedUpTo_step)
    from "1.IH" [OF True this] True show ?thesis
      by (subst (1 2) sortOuter.simps) (simp add: mset_sortInner)
  next
    case False
    with "1.prems" show ?thesis
      by (subst (1 2) sortOuter.simps) (simp add: sortedUpTo_def)
  qed
qed

lemma sortOuter_sort: "sortOuter a 0 = sort a"
proof -
  have "sortedUpTo a 0" by (simp add: sortedUpTo_def)
  then have "sorted (sortOuter a 0) \<and> mset (sortOuter a 0) = mset a"
    by (rule sortOuter_sorts)
  then show ?thesis by (metis properties_for_sort)
qed

section \<open>What holds of the raw questions all along\<close>

lemma list_all_update:
  "list_all P al \<Longrightarrow> P (k, v) \<Longrightarrow> list_all P (AList.update k v al)"
  by (induction al) auto

lemma optionBody_letter: "optionBody r = Some (l, m) \<Longrightarrow> l \<in> set letters"
  by (auto simp: optionBody_def isAF_def letters_def split: list.splits if_splits)

lemma optionLine_letter: "optionLinePattern t = Some (l, m) \<Longrightarrow> l \<in> set letters"
  by (auto simp: optionLinePattern_def dest: optionBody_letter)

lemma optionWithX_letter: "optionWithXPattern t = Some (l, m) \<Longrightarrow> l \<in> set letters"
  by (auto simp: optionWithXPattern_def dest: optionBody_letter split: list.splits if_splits)

lemma draftsOk_initial: "draftsOk (initialState c)"
  by (simp add: draftsOk_def initialState_def)

lemma draftsOk_putQuestion:
  "draftsOk s \<Longrightarrow> 1 \<le> n \<Longrightarrow> draftsOk (putQuestion n t (s\<lparr>lastQuestionNum := n\<rparr>))"
  by (simp add: draftsOk_def putQuestion_def distinct_update list_all_update draftOk_def
      newRawQuestion_def optionsOk_def)

lemma draftsOk_putOption:
  assumes "draftsOk s" "map_of (rawQuestions s) (lastQuestionNum s) = Some rq"
    "l \<in> set letters"
  shows "draftsOk (putOption rq l t c s)"
proof -
  have "(lastQuestionNum s, rq) \<in> set (rawQuestions s)"
    using assms(2) by (rule map_of_SomeD)
  then have "draftOk (lastQuestionNum s, rq)"
    using assms(1) by (auto simp: draftsOk_def list_all_iff)
  then have "draftOk (lastQuestionNum s,
      rq\<lparr>options := AList.update l \<lparr>Letter = l, Text = t, Correct = c\<rparr> (options rq)\<rparr>)"
    using assms(3) by (simp add: draftOk_def optionsOk_def list_all_update)
  then show ?thesis
    using assms(1) by (simp add: draftsOk_def putOption_def distinct_update list_all_update)
qed

lemma draftsOk_flag [simp]: "draftsOk (s\<lparr>nextOptionIsCorrect := b\<rparr>) = draftsOk s"
  by (simp add: draftsOk_def)

lemma draftsOk_category [simp]: "draftsOk (s\<lparr>currentCategory := c\<rparr>) = draftsOk s"
  by (simp add: draftsOk_def)

lemma draftsOk_questionOnlyBlock:
  "draftsOk s \<Longrightarrow> questionOnlyBlock lines i t s = r \<Longrightarrow>
   draftsOk (case r of Continue s' \<Rightarrow> s' | Next s' \<Rightarrow> s')"
  by (auto simp: questionOnlyBlock_def draftsOk_putQuestion split: option.splits)

lemma draftsOk_questionWithTextBlock:
  "draftsOk s \<Longrightarrow> questionWithTextBlock lines i t s = r \<Longrightarrow>
   draftsOk (case r of Continue s' \<Rightarrow> s' | Next s' \<Rightarrow> s')"
  by (auto simp: questionWithTextBlock_def draftsOk_putQuestion split: option.splits)

lemma draftsOk_optionBlock: "draftsOk s \<Longrightarrow> draftsOk (optionBlock lines i t s)"
  by (auto simp: optionBlock_def split: option.splits
      intro!: draftsOk_putOption dest: optionLine_letter optionWithX_letter)

lemma draftsOk_step: "draftsOk s \<Longrightarrow> draftsOk (step lines i s)"
proof -
  assume ok: "draftsOk s"
  let ?t = "TrimSpace (lines ! i)"
  let ?s1 = "if categoryMarker ?t then s\<lparr>currentCategory := ?t\<rparr> else s"
  have ok1: "draftsOk ?s1" using ok by simp
  show ?thesis
  proof (cases "questionOnlyBlock lines i ?t ?s1")
    case (Continue s2)
    with draftsOk_questionOnlyBlock [OF ok1 Continue] ok ok1 show ?thesis
      by (simp add: step_def Let_def)
  next
    case (Next s2)
    with draftsOk_questionOnlyBlock [OF ok1 Next] have ok2: "draftsOk s2" by simp
    show ?thesis
    proof (cases "questionWithTextBlock lines i ?t s2")
      case (Continue s3)
      with draftsOk_questionWithTextBlock [OF ok2 Continue] Next ok ok1 show ?thesis
        by (simp add: step_def Let_def)
    next
      case Next3: (Next s3)
      with draftsOk_questionWithTextBlock [OF ok2 Next3] have ok3: "draftsOk s3" by simp
      with Next Next3 ok ok1 show ?thesis
        by (simp add: step_def Let_def draftsOk_optionBlock)
    qed
  qed
qed

lemma draftsOk_mainLoop: "draftsOk s \<Longrightarrow> draftsOk (mainLoop lines i s)"
proof (induction lines i s rule: mainLoop.induct)
  case (1 lines i s)
  show ?case
  proof (cases "i < length lines")
    case True
    with "1.IH" "1.prems" show ?thesis
      by (subst mainLoop.simps) (simp add: draftsOk_step)
  next
    case False
    with "1.prems" show ?thesis by (subst mainLoop.simps) simp
  qed
qed

lemma draftsOk_finalState: "draftsOk (finalState txt)"
  by (simp add: finalState_def Let_def draftsOk_mainLoop draftsOk_initial split: prod.splits)

section \<open>The last loop\<close>

lemma letters_sorted: "sorted_wrt (<) letters"
  by (simp add: letters_def less_char_def)

lemma letters_distinct: "distinct letters"
  by (simp add: letters_def)

lemma draftsOk_lookup:
  "draftsOk s \<Longrightarrow> map_of (rawQuestions s) n = Some rq \<Longrightarrow>
   number rq = n \<and> 1 \<le> n \<and> optionsOk (options rq)"
  by (auto simp: draftsOk_def list_all_iff draftOk_def dest!: map_of_SomeD)

lemma ID_buildQuestions:
  "draftsOk s \<Longrightarrow> map ID (buildQuestions s nums) = filter (keep s) nums"
  by (induction nums) (auto simp: keep_def dest: draftsOk_lookup split: option.splits)

lemma questionNums_sort: "questionNums s = sort (map fst (rawQuestions s))"
  by (simp add: questionNums_def sortOuter_sort)

lemma questionNums_strict: "draftsOk s \<Longrightarrow> sorted_wrt (<) (questionNums s)"
  by (simp add: questionNums_sort strict_sorted_iff draftsOk_def)

lemma questionNums_positive: "draftsOk s \<Longrightarrow> n \<in> set (questionNums s) \<Longrightarrow> 1 \<le> n"
  by (auto simp: questionNums_sort draftsOk_def list_all_iff draftOk_def)

lemma in_buildQuestions:
  "q \<in> set (buildQuestions s nums) \<Longrightarrow>
   \<exists>n rq. n \<in> set nums \<and> map_of (rawQuestions s) n = Some rq \<and>
     length (rtext rq) > 5 \<and> options rq \<noteq> [] \<and>
     q = \<lparr>ID = number rq, QText = rtext rq, Options = buildOptions rq,
          Category = currentCategory s\<rparr>"
  by (induction nums) (auto split: option.splits if_splits)

lemma Letter_buildOptions:
  assumes "optionsOk os"
  shows "map Letter (concat (map (\<lambda>letter. case map_of os letter of
                              None \<Rightarrow> [] | Some opt \<Rightarrow> [opt]) ls)) =
         filter (\<lambda>l. map_of os l \<noteq> None) ls"
proof (induction ls)
  case Nil
  show ?case by simp
next
  case (Cons l ls)
  show ?case
  proof (cases "map_of os l")
    case None
    with Cons show ?thesis by simp
  next
    case (Some opt)
    then have "(l, opt) \<in> set os" by (rule map_of_SomeD)
    with assms have "Letter opt = l" by (auto simp: optionsOk_def list_all_iff)
    with Cons Some show ?thesis by simp
  qed
qed

lemma Letter_buildOptions_filter:
  "optionsOk (options rq) \<Longrightarrow>
   map Letter (buildOptions rq) = filter (\<lambda>l. map_of (options rq) l \<noteq> None) letters"
  unfolding buildOptions_def by (rule Letter_buildOptions)

lemma buildOptions_nonempty:
  assumes "optionsOk (options rq)" "options rq \<noteq> []"
  shows "buildOptions rq \<noteq> []"
proof -
  obtain l opt rest where os: "options rq = (l, opt) # rest"
    using assms(2) by (cases "options rq") auto
  with assms(1) have l: "l \<in> set letters" by (simp add: optionsOk_def)
  from os have "map_of (options rq) l \<noteq> None" by simp
  with l have "filter (\<lambda>l. map_of (options rq) l \<noteq> None) letters \<noteq> []"
    by (auto simp: filter_empty_conv)
  then have "map Letter (buildOptions rq) \<noteq> []"
    using assms(1) by (simp add: Letter_buildOptions_filter)
  then show ?thesis by auto
qed

lemma buildOptions_stored: "set (buildOptions rq) \<subseteq> snd ` set (options rq)"
proof
  fix opt assume "opt \<in> set (buildOptions rq)"
  then obtain l where "map_of (options rq) l = Some opt"
    by (auto simp: buildOptions_def split: option.splits)
  then have "(l, opt) \<in> set (options rq)" by (rule map_of_SomeD)
  then show "opt \<in> snd ` set (options rq)" by force
qed

lemma Questions_parseText:
  "Questions (parseText now txt) = buildQuestions (finalState txt) (questionNums (finalState txt))"
  by (simp add: parseText_def buildCatalog_def questionNums_def Let_def)

section \<open>The loops that collect lines\<close>

lemma collectLines_done:
  "\<not> (j < length lines \<and> j < i + cap) \<Longrightarrow> collectLines stop cap lines i j = []"
  by (subst collectLines.simps) auto

lemma collectLines_round:
  "j < length lines \<Longrightarrow> j < i + cap \<Longrightarrow>
   collectLines stop cap lines i j =
     (if emptyLinePattern (TrimSpace (lines ! j)) then collectLines stop cap lines i (j + 1)
      else if stop (TrimSpace (lines ! j)) then []
      else TrimSpace (lines ! j) # collectLines stop cap lines i (j + 1))"
  by (subst collectLines.simps) simp

lemma length_collectLines: "length (collectLines stop cap lines i j) \<le> i + cap - j"
proof (induction stop cap lines i j rule: collectLines.induct)
  case (1 stop cap lines i j)
  show ?case
  proof (cases "j < length lines \<and> j < i + cap")
    case True
    then have r: "j < length lines" "j < i + cap" by simp_all
    show ?thesis
    proof (cases "emptyLinePattern (TrimSpace (lines ! j))")
      case e: True
      with "1.IH"(1) [OF True e] r show ?thesis
        by (simp add: collectLines_round)
    next
      case e: False
      show ?thesis
      proof (cases "stop (TrimSpace (lines ! j))")
        case True
        with e r show ?thesis by (simp add: collectLines_round)
      next
        case False
        with "1.IH"(2) [OF True e False] e r show ?thesis
          by (simp add: collectLines_round)
      qed
    qed
  next
    case False
    then show ?thesis by (simp add: collectLines_done)
  qed
qed

lemma collectLines_take:
  "i + cap \<le> n \<Longrightarrow> collectLines stop cap (take n lines) i j = collectLines stop cap lines i j"
proof (induction stop cap lines i j rule: collectLines.induct)
  case (1 stop cap lines i j)
  show ?case
  proof (cases "j < length lines \<and> j < i + cap")
    case True
    then have r: "j < length lines" "j < i + cap" by simp_all
    with "1.prems" have j: "j < length (take n lines)" "take n lines ! j = lines ! j"
      by simp_all
    have u: "collectLines stop cap (take n lines) i j =
     (if emptyLinePattern (TrimSpace (lines ! j))
      then collectLines stop cap (take n lines) i (j + 1)
      else if stop (TrimSpace (lines ! j)) then []
      else TrimSpace (lines ! j) # collectLines stop cap (take n lines) i (j + 1))"
      using collectLines_round [OF j(1) r(2), of stop] j(2) by simp
    show ?thesis
    proof (cases "emptyLinePattern (TrimSpace (lines ! j))")
      case e: True
      with "1.IH"(1) [OF True e "1.prems"] r u show ?thesis
        by (simp add: collectLines_round)
    next
      case e: False
      show ?thesis
      proof (cases "stop (TrimSpace (lines ! j))")
        case True
        with e r u show ?thesis by (simp add: collectLines_round)
      next
        case False
        with "1.IH"(2) [OF True e False "1.prems"] e r u show ?thesis
          by (simp add: collectLines_round)
      qed
    qed
  next
    case False
    then have "\<not> (j < length (take n lines) \<and> j < i + cap)" by simp
    then have "collectLines stop cap (take n lines) i j = []" by (rule collectLines_done)
    moreover have "collectLines stop cap lines i j = []" using False by (rule collectLines_done)
    ultimately show ?thesis by simp
  qed
qed

lemma collectLines_stop_at:
  "j \<le> k \<Longrightarrow> k < length lines \<Longrightarrow> \<not> emptyLinePattern (TrimSpace (lines ! k)) \<Longrightarrow>
   stop (TrimSpace (lines ! k)) \<Longrightarrow>
   collectLines stop cap (take k lines) i j = collectLines stop cap lines i j"
proof (induction stop cap lines i j rule: collectLines.induct)
  case (1 stop cap lines i j)
  show ?case
  proof (cases "j < length lines \<and> j < i + cap")
    case True
    then have r: "j < length lines" "j < i + cap" by simp_all
    show ?thesis
    proof (cases "j = k")
      case jk: True
      then have "\<not> (j < length (take k lines) \<and> j < i + cap)" by simp
      then have "collectLines stop cap (take k lines) i j = []"
        by (rule collectLines_done)
      moreover have "collectLines stop cap lines i j = []"
        using r jk "1.prems" by (simp add: collectLines_round)
      ultimately show ?thesis by simp
    next
      case False
      with "1.prems" r have j: "j < length (take k lines)"
        "take k lines ! j = lines ! j" and jk: "j + 1 \<le> k"
        by simp_all
      have u: "collectLines stop cap (take k lines) i j =
       (if emptyLinePattern (TrimSpace (lines ! j))
        then collectLines stop cap (take k lines) i (j + 1)
        else if stop (TrimSpace (lines ! j)) then []
        else TrimSpace (lines ! j) # collectLines stop cap (take k lines) i (j + 1))"
        using collectLines_round [OF j(1) r(2), of stop] j(2) by simp
      show ?thesis
      proof (cases "emptyLinePattern (TrimSpace (lines ! j))")
        case e: True
        with "1.IH"(1) [OF True e jk "1.prems"(2,3,4)] r u show ?thesis
          by (simp add: collectLines_round)
      next
        case e: False
        show ?thesis
        proof (cases "stop (TrimSpace (lines ! j))")
          case True
          with e r u show ?thesis by (simp add: collectLines_round)
        next
          case False
          with "1.IH"(2) [OF True e False jk "1.prems"(2,3,4)] e r u show ?thesis
            by (simp add: collectLines_round)
        qed
      qed
    qed
  next
    case False
    with "1.prems" have "\<not> (j < length (take k lines) \<and> j < i + cap)" by simp
    then have "collectLines stop cap (take k lines) i j = []" by (rule collectLines_done)
    moreover have "collectLines stop cap lines i j = []" using False by (rule collectLines_done)
    ultimately show ?thesis by simp
  qed
qed

lemma Contains_not_empty:
  assumes "Contains l sub" "c \<in> set sub" "\<not> isS c"
  shows "\<not> emptyLinePattern l"
  using Contains_set [OF assms(1)] assms(2,3) by (auto simp: emptyLinePattern_def list_all_iff)

lemma collectLines_join:
  "a \<le> j \<Longrightarrow> j \<le> length lines \<Longrightarrow> j \<le> i + cap \<Longrightarrow>
   \<forall>k. a \<le> k \<and> k < j \<longrightarrow> \<not> stop (TrimSpace (lines ! k)) \<Longrightarrow>
   collectLines stop cap lines i a = nonBlankLines lines a j @ collectLines stop cap lines i j"
proof (induction "j - a" arbitrary: a)
  case 0
  then show ?case by (simp add: nonBlankLines_def)
next
  case (Suc d)
  then have a: "a < j" "a < length lines" "a < i + cap" by simp_all
  have ns: "\<not> stop (TrimSpace (lines ! a))" using Suc.prems(4) a(1) by simp
  have ih: "collectLines stop cap lines i (a + 1) =
      nonBlankLines lines (a + 1) j @ collectLines stop cap lines i j"
    using Suc by (intro Suc.hyps(1)) simp_all
  have nb: "nonBlankLines lines a j =
      (if emptyLinePattern (TrimSpace (lines ! a)) then nonBlankLines lines (a + 1) j
       else TrimSpace (lines ! a) # nonBlankLines lines (a + 1) j)"
    using a(1) by (simp add: nonBlankLines_def upt_conv_Cons)
  show ?case
    using ns ih by (simp add: collectLines_round [OF a(2,3)] nb)
qed

lemma collectLines_plain:
  assumes "i < j" "j < length lines" "j < i + cap"
    and "\<forall>k. i < k \<and> k \<le> j \<longrightarrow> \<not> stop (TrimSpace (lines ! k))"
  shows "collectLines stop cap lines i (i + 1) =
           nonBlankLines lines (i + 1) (j + 1) @ collectLines stop cap lines i (j + 1)"
proof -
  have "\<forall>k. i + 1 \<le> k \<and> k < j + 1 \<longrightarrow> \<not> stop (TrimSpace (lines ! k))"
    using assms(4) by simp
  with assms(1-3) show ?thesis
    by (intro collectLines_join) simp_all
qed

section \<open>Rounds of the loop over the lines\<close>

lemma mainLoop_runLines:
  "i \<le> j \<Longrightarrow> j \<le> length lines \<Longrightarrow> mainLoop lines i s = mainLoop lines j (runLines lines i j s)"
proof (induction "j - i" arbitrary: i s)
  case 0
  then show ?case by (simp add: runLines_def)
next
  case (Suc d)
  then have i: "i < j" "i < length lines" by simp_all
  from Suc have "mainLoop lines (i + 1) (step lines i s) =
      mainLoop lines j (runLines lines (i + 1) j (step lines i s))"
    by (intro Suc.hyps(1)) simp_all
  moreover have "runLines lines i j s = runLines lines (i + 1) j (step lines i s)"
    using i by (simp add: runLines_def upt_conv_Cons)
  moreover have "mainLoop lines i s = mainLoop lines (i + 1) (step lines i s)"
    using i by (subst mainLoop.simps) simp
  ultimately show ?case by simp
qed

lemma step_blank: "emptyLinePattern (TrimSpace (lines ! k)) \<Longrightarrow> step lines k s = s"
  by (simp add: step_def)

lemma runLines_blank:
  "\<forall>k. i \<le> k \<and> k < j \<longrightarrow> emptyLinePattern (TrimSpace (lines ! k)) \<Longrightarrow> runLines lines i j s = s"
proof (induction "j - i" arbitrary: i s)
  case 0
  then show ?case by (simp add: runLines_def)
next
  case (Suc d)
  then have i: "i < j" by simp
  then have "runLines lines i j s = runLines lines (i + 1) j (step lines i s)"
    by (simp add: runLines_def upt_conv_Cons)
  also have "step lines i s = s" using Suc.prems i by (simp add: step_blank)
  also have "runLines lines (i + 1) j s = s"
    using Suc by (intro Suc.hyps(1)) simp_all
  finally show ?case .
qed

lemma runLines_split:
  "i \<le> k \<Longrightarrow> k \<le> j \<Longrightarrow> runLines lines i j s = runLines lines k j (runLines lines i k s)"
proof -
  assume "i \<le> k" "k \<le> j"
  then have "[i..<j] = [i..<k] @ [k..<j]"
    by (metis le_Suc_ex upt_add_eq_append)
  then show ?thesis by (simp add: runLines_def)
qed

lemma runLines_one: "runLines lines i (Suc i) s = step lines i s"
  by (simp add: runLines_def)

lemma withCategory_simps [simp]:
  "rawQuestions (withCategory t s) = rawQuestions s"
  "lastQuestionNum (withCategory t s) = lastQuestionNum s"
  "nextOptionIsCorrect (withCategory t s) = nextOptionIsCorrect s"
  by (simp_all add: withCategory_def)

lemma step_unfold:
  "\<not> emptyLinePattern (TrimSpace (lines ! i)) \<Longrightarrow> \<not> boilerplate (TrimSpace (lines ! i)) \<Longrightarrow>
   step lines i s =
     (case questionOnlyBlock lines i (TrimSpace (lines ! i))
             (withCategory (TrimSpace (lines ! i)) s) of
        Continue s2 \<Rightarrow> s2
      | Next s2 \<Rightarrow>
          (case questionWithTextBlock lines i (TrimSpace (lines ! i)) s2 of
             Continue s3 \<Rightarrow> s3
           | Next s3 \<Rightarrow>
               if lastQuestionNum s3 > 0 \<and> justXPattern (TrimSpace (lines ! i))
               then s3\<lparr>nextOptionIsCorrect := True\<rparr>
               else optionBlock lines i (TrimSpace (lines ! i)) s3))"
  by (simp add: step_def Let_def withCategory_def)

lemma step_option:
  assumes o: "optionLinePattern (TrimSpace (lines ! i)) = Some (letter, m2)"
    and nb: "\<not> boilerplate (TrimSpace (lines ! i))"
    and lq: "lastQuestionNum s > 0"
    and d: "map_of (rawQuestions s) (lastQuestionNum s) = Some rq"
  shows "step lines i s =
           putOption rq letter (optionText lines i m2) (nextOptionIsCorrect s)
             ((withCategory (TrimSpace (lines ! i)) s)\<lparr>nextOptionIsCorrect := False\<rparr>)"
proof -
  let ?t = "TrimSpace (lines ! i)"
  from o obtain c r where c: "dropWhile isS ?t = c # r" "isAF c"
    using option_letter_first by blast
  have ne: "\<not> emptyLinePattern ?t" using c(1) by (rule first_not_empty)
  show ?thesis
    using o lq d
    by (simp add: step_unfold [OF ne nb] questionOnlyBlock_def questionWithTextBlock_def
        letter_not_questionOnly [OF c] letter_not_questionWithText [OF c]
        letter_not_justX [OF c] letter_not_optionWithX [OF c] optionBlock_def)
qed

lemma tail_digit:
  assumes "dropWhile isS t = c # r" "isD c"
  shows "(if lastQuestionNum s > 0 \<and> justXPattern t then s\<lparr>nextOptionIsCorrect := True\<rparr>
          else optionBlock lines i t s) = s"
  by (simp add: digit_not_justX [OF assms] optionBlock_def digit_not_option [OF assms]
      digit_not_optionWithX [OF assms] split: option.splits)

lemma questionWithTextBlock_after_only:
  assumes "questionOnlyPattern t = Some d"
  shows "questionWithTextBlock lines i t s = Continue s \<or>
         questionWithTextBlock lines i t s = Next s"
proof (cases "questionWithTextPattern t")
  case None
  then show ?thesis by (simp add: questionWithTextBlock_def)
next
  case (Some m)
  obtain m1 m2 where m: "m = (m1, m2)" by (cases m)
  with Some assms have "\<not> ContainsRune m2 CHR ''?''"
    by (simp add: questionOnly_then_no_mark)
  with Some m show ?thesis
    by (simp add: questionWithTextBlock_def split: option.splits)
qed

lemma step_question:
  assumes nb: "\<not> boilerplate (TrimSpace (lines ! i))"
    and q: "(questionOnlyPattern (TrimSpace (lines ! i)) = Some m1 \<and>
             qText = questionOnlyText lines i) \<or>
            (questionWithTextPattern (TrimSpace (lines ! i)) = Some (m1, m2) \<and>
             ContainsRune m2 CHR ''?'' \<and> qText = questionWithTextText lines i m2)"
    and a: "Atoi m1 = Some n" and n: "1 \<le> n"
  shows "step lines i s =
           putQuestion n qText ((withCategory (TrimSpace (lines ! i)) s)\<lparr>lastQuestionNum := n\<rparr>)"
proof -
  let ?t = "TrimSpace (lines ! i)"
  let ?s1 = "withCategory ?t s"
  let ?s2 = "putQuestion n qText (?s1\<lparr>lastQuestionNum := n\<rparr>)"
  from q obtain c r where c: "dropWhile isS ?t = c # r" "isD c"
    using questionOnly_digit questionWithText_digit by blast
  have ne: "\<not> emptyLinePattern ?t" using c(1) by (rule first_not_empty)
  note tl = tail_digit [OF c]
  from q show ?thesis
  proof
    assume q4: "questionOnlyPattern ?t = Some m1 \<and> qText = questionOnlyText lines i"
    then have b4: "questionOnlyBlock lines i ?t ?s1 = Next ?s2"
      using a n by (simp add: questionOnlyBlock_def)
    from q4 questionWithTextBlock_after_only [of ?t m1 lines i ?s2]
    show ?thesis
      by (auto simp: step_unfold [OF ne nb] b4 tl)
  next
    assume q5: "questionWithTextPattern ?t = Some (m1, m2) \<and>
             ContainsRune m2 CHR ''?'' \<and> qText = questionWithTextText lines i m2"
    have "questionOnlyPattern ?t = None"
    proof (cases "questionOnlyPattern ?t")
      case (Some d)
      with q5 questionOnly_then_no_mark [of ?t d m1 m2] show ?thesis by simp
    qed simp
    then have b4: "questionOnlyBlock lines i ?t ?s1 = Next ?s1"
      by (simp add: questionOnlyBlock_def)
    have b5: "questionWithTextBlock lines i ?t ?s1 = Next ?s2"
      using q5 a n by (simp add: questionWithTextBlock_def)
    show ?thesis
      by (simp add: step_unfold [OF ne nb] b4 b5 tl)
  qed
qed

text \<open>
  The path on which the raw question of \<open>lastQuestionNum\<close> exists: a line that is an
  "X" alone, blank lines, and an option line without a marker that holds no boilerplate
  marker.  The option is stored as correct and the flag is cleared.
\<close>

lemma X_then_option_with_draft:
  assumes "i < j" and "j < length lines"
    and "justXPattern (TrimSpace (lines ! i))"
    and "\<forall>k. i < k \<and> k < j \<longrightarrow> emptyLinePattern (TrimSpace (lines ! k))"
    and "optionLinePattern (TrimSpace (lines ! j)) = Some (letter, m2)"
    and "\<not> boilerplate (TrimSpace (lines ! j))"
    and "lastQuestionNum s > 0"
    and "map_of (rawQuestions s) (lastQuestionNum s) = Some rq"
  shows "map_of (rawQuestions (runLines lines i (j + 1) s)) (lastQuestionNum s) =
           Some (rq\<lparr>options :=
                  AList.update letter
                    \<lparr>Letter = letter, Text = optionText lines j m2, Correct = True\<rparr>
                    (options rq)\<rparr>) \<and>
         nextOptionIsCorrect (runLines lines i (j + 1) s) = False \<and>
         lastQuestionNum (runLines lines i (j + 1) s) = lastQuestionNum s \<and>
         (\<forall>n. n \<noteq> lastQuestionNum s \<longrightarrow>
            map_of (rawQuestions (runLines lines i (j + 1) s)) n = map_of (rawQuestions s) n) \<and>
         mainLoop lines i s = mainLoop lines (j + 1) (runLines lines i (j + 1) s)"
proof -
  let ?x = "s\<lparr>nextOptionIsCorrect := True\<rparr>"
  have "runLines lines i (j + 1) s = runLines lines (i + 1) (j + 1) (runLines lines i (i + 1) s)"
    using assms(1) by (intro runLines_split) simp_all
  also have "runLines lines i (i + 1) s = ?x"
    using assms(3,7) step_justX [of lines i s] by (simp add: runLines_one)
  also have "runLines lines (i + 1) (j + 1) ?x =
      runLines lines j (j + 1) (runLines lines (i + 1) j ?x)"
    using assms(1) by (intro runLines_split) simp_all
  also have "runLines lines (i + 1) j ?x = ?x"
    using assms(4) by (intro runLines_blank) simp
  also have "runLines lines j (j + 1) ?x =
      putOption rq letter (optionText lines j m2) True
        ((withCategory (TrimSpace (lines ! j)) ?x)\<lparr>nextOptionIsCorrect := False\<rparr>)"
    using step_option [OF assms(5,6), of ?x rq] assms(7,8) by (simp add: runLines_one)
  finally have r: "runLines lines i (j + 1) s =
      putOption rq letter (optionText lines j m2) True
        ((withCategory (TrimSpace (lines ! j)) ?x)\<lparr>nextOptionIsCorrect := False\<rparr>)" .
  have m: "mainLoop lines i s = mainLoop lines (j + 1) (runLines lines i (j + 1) s)"
    using assms(1,2) by (intro mainLoop_runLines) simp_all
  have p: "map_of (rawQuestions (runLines lines i (j + 1) s)) (lastQuestionNum s) =
           Some (rq\<lparr>options :=
                  AList.update letter
                    \<lparr>Letter = letter, Text = optionText lines j m2, Correct = True\<rparr>
                    (options rq)\<rparr>) \<and>
         nextOptionIsCorrect (runLines lines i (j + 1) s) = False \<and>
         lastQuestionNum (runLines lines i (j + 1) s) = lastQuestionNum s \<and>
         (\<forall>n. n \<noteq> lastQuestionNum s \<longrightarrow>
            map_of (rawQuestions (runLines lines i (j + 1) s)) n = map_of (rawQuestions s) n)"
    unfolding r by (simp add: putOption_def update_conv')
  from p m show ?thesis by blast
qed

section \<open>The claims\<close>

text \<open>
  C1.  The claim: a question of the catalog carries the category that was current when the
  question was parsed.  The code reads \<open>currentCategory\<close> once, in the last loop, so every
  question carries the category of the last category line of the input.  In
  \<open>twoCategories\<close> the category is \<open>1. Sachgebiet: Jagdwaffen\<close> after the round that
  parses question 1, and the catalog gives question 1 the category of question 2.
\<close>

theorem category_is_the_last_one:
  "currentCategory (runLines (Split (textOf twoCategories)) 0 3 (initialState [])) =
     ''1. Sachgebiet: Jagdwaffen'' \<and>
   map_of (rawQuestions (runLines (Split (textOf twoCategories)) 0 3 (initialState []))) 1 =
     Some \<lparr>number = 1, rtext = ''Was ist das hier?'', options = []\<rparr> \<and>
   map (\<lambda>q. (ID q, Category q)) (Questions (parseText ''2025-01-01T00:00:00Z''
       (textOf twoCategories))) =
     [(1, ''2. Sachgebiet: Wildbiologie''), (2, ''2. Sachgebiet: Wildbiologie'')]"
  by code_simp

text \<open>
  C2.  The claim: two runs on the same text give catalogs that are equal in every field,
  \<open>LastModified\<close> included.  \<open>LastModified\<close> is the reading of the clock, so two runs at
  different times differ in it.
\<close>

theorem same_text_other_time_counterexample:
  "parseText ''2025-01-01T00:00:00Z'' [] \<noteq> parseText ''2025-01-01T00:00:01Z'' []"
proof
  assume "parseText ''2025-01-01T00:00:00Z'' [] = parseText ''2025-01-01T00:00:01Z'' []"
  then have "LastModified (parseText ''2025-01-01T00:00:00Z'' []) =
      LastModified (parseText ''2025-01-01T00:00:01Z'' [])"
    by simp
  then show False by (simp add: parseText_def buildCatalog_def Let_def)
qed

text \<open>
  C2, amended.  Two runs on the same text give catalogs that are equal in every field but
  \<open>LastModified\<close>, which is the reading of the clock of each run; and this holds for
  every order in which the range loop yields the keys of the map.
\<close>

theorem parse_deterministic_but_for_clock:
  assumes "mset keys = mset (map fst (rawQuestions (finalState txt)))"
  shows "buildCatalog now1 (finalState txt) keys = (parseText now2 txt)\<lparr>LastModified := now1\<rparr> \<and>
         parseText now1 txt = (parseText now2 txt)\<lparr>LastModified := now1\<rparr> \<and>
         LastModified (parseText now1 txt) = now1"
proof -
  have "sort keys = sort (map fst (rawQuestions (finalState txt)))"
    using assms by (metis mset_sort properties_for_sort sorted_sort)
  then show ?thesis
    by (simp add: parseText_def buildCatalog_def Let_def sortOuter_sort)
qed

theorem parse_deterministic_but_for_clock_witness:
  "map fst (rawQuestions (finalState (textOf twoQuestions))) = [12, 7, 5] \<and>
   buildCatalog ''2025-01-01T00:00:00Z'' (finalState (textOf twoQuestions)) [5, 12, 7] =
     (parseText ''2025-01-01T00:00:01Z'' (textOf twoQuestions))
       \<lparr>LastModified := ''2025-01-01T00:00:00Z''\<rparr>"
proof -
  have k: "map fst (rawQuestions (finalState (textOf twoQuestions))) = [12, 7, 5]"
    by code_simp
  have "mset [5, 12, 7] = mset (map fst (rawQuestions (finalState (textOf twoQuestions))))"
    by (simp add: k)
  from parse_deterministic_but_for_clock [OF this] k show ?thesis
    by blast
qed

text \<open>
  C3.  The claim: when a line that is an "X" alone is followed by an option line without a
  marker, for an open question, that option is marked correct and the flag is cleared by
  that line, so that the "X" affects no later option.  The code sets the flag when
  \<open>lastQuestionNum > 0\<close> (the comment there: "marks next option as correct"), but
  stores the option and clears the flag only when \<open>rawQuestions[lastQuestionNum]\<close> exists,
  while \<open>lastQuestionNum\<close> is set before the test of the length of the text.  In
  \<open>shortQuestion\<close> question 8 is open when the "X" is read (line 5) but has no raw
  question, its text being 4 bytes long: the option line (line 6) stores nothing, the
  flag stays set, and option a of question 9 is marked correct.  In \<open>markedOption\<close>, where
  the raw question exists, the option after the "X" is marked and the next one is not.
\<close>

theorem flag_outlives_dropped_option:
  "lastQuestionNum (runLines (Split (textOf shortQuestion)) 0 5 (initialState [])) = 8 \<and>
   justXPattern (TrimSpace (Split (textOf shortQuestion) ! 5)) \<and>
   optionLinePattern (TrimSpace (Split (textOf shortQuestion) ! 6)) = Some (''a'', ''Eins'') \<and>
   map_of (rawQuestions (runLines (Split (textOf shortQuestion)) 0 7 (initialState []))) 8 =
     None \<and>
   nextOptionIsCorrect (runLines (Split (textOf shortQuestion)) 0 7 (initialState [])) = True \<and>
   map (\<lambda>q. (ID q, map (\<lambda>opt. (Letter opt, Text opt, Correct opt)) (Options q)))
     (Questions (parseText ''2025-01-01T00:00:00Z'' (textOf shortQuestion))) =
     [(7, [(''a'', ''foo'', False)]), (9, [(''a'', ''Zwei'', True)])] \<and>
   map (\<lambda>q. (ID q, map (\<lambda>opt. (Letter opt, Text opt, Correct opt)) (Options q)))
     (Questions (parseText ''2025-01-01T00:00:00Z'' (textOf markedOption))) =
     [(7, [(''a'', ''Foo'', True), (''b'', ''Bar'', False)])]"
  by code_simp

text \<open>
  C4.  The claim: when the same question number is committed twice, the earlier raw
  question and its options are replaced by the later one.  The code replaces it only when
  the later text is longer than 5 bytes.  In \<open>sameNumberShort\<close> the second line with
  number 7 has the text \<open>Was?\<close>: the first raw question stays, and option b, which follows
  the second line, is added to it.
\<close>

theorem short_later_question_counterexample:
  "Questions (parseText ''2025-01-01T00:00:00Z'' (textOf sameNumberShort)) =
     [\<lparr>ID = 7, QText = ''Was ist das hier?'',
       Options = [\<lparr>Letter = ''a'', Text = ''Foo'', Correct = False\<rparr>,
                  \<lparr>Letter = ''b'', Text = ''Bar'', Correct = False\<rparr>],
       Category = []\<rparr>]"
  by code_simp

text \<open>
  C4, amended.  When a line is committed as a question with the number \<open>n\<close> (a number
  alone, or a number with a text that holds a question mark; the line holds no boilerplate
  marker, and \<open>n\<close> is at least 1) and the text collected for it is longer than 5 bytes,
  then after the round the raw question under \<open>n\<close> is the new one, with this text and no
  option, whatever was stored under \<open>n\<close> before; \<open>lastQuestionNum\<close> is \<open>n\<close>, so the
  options that follow are added to the new raw question; the other raw questions stay.
  A raw question \<open>d\<close> stored under \<open>n\<close> before the line leaves no trace: the state
  after the round, and so the state at the end of the loop and the catalog built from it,
  are the same with it and without it.
\<close>

theorem later_question_overwrites_draft:
  assumes "\<not> boilerplate (TrimSpace (lines ! i))"
    and "(questionOnlyPattern (TrimSpace (lines ! i)) = Some m1 \<and>
          qText = questionOnlyText lines i) \<or>
         (questionWithTextPattern (TrimSpace (lines ! i)) = Some (m1, m2) \<and>
          ContainsRune m2 CHR ''?'' \<and> qText = questionWithTextText lines i m2)"
    and "Atoi m1 = Some n" and "1 \<le> n" and "length qText > 5"
  shows "map_of (rawQuestions (step lines i s)) n =
           Some \<lparr>number = n, rtext = qText, options = []\<rparr> \<and>
         lastQuestionNum (step lines i s) = n \<and>
         nextOptionIsCorrect (step lines i s) = nextOptionIsCorrect s \<and>
         (\<forall>k. k \<noteq> n \<longrightarrow>
            map_of (rawQuestions (step lines i s)) k = map_of (rawQuestions s) k) \<and>
         (\<forall>d. step lines i (s\<lparr>rawQuestions := AList.update n d (rawQuestions s)\<rparr>) =
              step lines i s) \<and>
         (i < length lines \<longrightarrow>
            (\<forall>d. mainLoop lines i (s\<lparr>rawQuestions := AList.update n d (rawQuestions s)\<rparr>) =
                 mainLoop lines i s))"
proof -
  note q = step_question [OF assms(1-4)]
  have a: "map_of (rawQuestions (step lines i s)) n =
           Some \<lparr>number = n, rtext = qText, options = []\<rparr> \<and>
         lastQuestionNum (step lines i s) = n \<and>
         nextOptionIsCorrect (step lines i s) = nextOptionIsCorrect s \<and>
         (\<forall>k. k \<noteq> n \<longrightarrow>
            map_of (rawQuestions (step lines i s)) k = map_of (rawQuestions s) k)"
    using assms(5) by (simp add: q putQuestion_def update_conv' newRawQuestion_def)
  have b: "step lines i (s\<lparr>rawQuestions := AList.update n d (rawQuestions s)\<rparr>) =
      step lines i s" for d
    using assms(5) by (simp add: q putQuestion_def withCategory_def)
  have c: "mainLoop lines i (s\<lparr>rawQuestions := AList.update n d (rawQuestions s)\<rparr>) =
      mainLoop lines i s" if "i < length lines" for d
    using that b [of d] by (subst (1 2) mainLoop.simps) simp
  from a b c show ?thesis by blast
qed

theorem later_question_overwrites_draft_witness:
  "map_of (rawQuestions (runLines sameNumberTwice 0 3 (initialState []))) 7 =
     Some \<lparr>number = 7, rtext = ''Was ist das hier?'',
           options = [(''a'', \<lparr>Letter = ''a'', Text = ''Foo'', Correct = False\<rparr>)]\<rparr> \<and>
   map_of (rawQuestions (step sameNumberTwice 3
       (runLines sameNumberTwice 0 3 (initialState [])))) 7 =
     Some \<lparr>number = 7, rtext = ''Was ist jenes?'', options = []\<rparr> \<and>
   Questions (parseText ''2025-01-01T00:00:00Z'' (textOf sameNumberTwice)) =
     [\<lparr>ID = 7, QText = ''Was ist jenes?'',
       Options = [\<lparr>Letter = ''b'', Text = ''Bar'', Correct = False\<rparr>],
       Category = []\<rparr>]"
proof -
  let ?s = "runLines sameNumberTwice 0 3 (initialState [])"
  have h1: "\<not> boilerplate (TrimSpace (sameNumberTwice ! 3))" by code_simp
  have "questionWithTextPattern (TrimSpace (sameNumberTwice ! 3)) =
          Some (''7'', ''Was ist jenes?'') \<and>
        ContainsRune ''Was ist jenes?'' CHR ''?'' \<and>
        ''Was ist jenes?'' = questionWithTextText sameNumberTwice 3 ''Was ist jenes?''"
    by code_simp
  then have h2: "(questionOnlyPattern (TrimSpace (sameNumberTwice ! 3)) = Some ''7'' \<and>
          ''Was ist jenes?'' = questionOnlyText sameNumberTwice 3) \<or>
         (questionWithTextPattern (TrimSpace (sameNumberTwice ! 3)) =
            Some (''7'', ''Was ist jenes?'') \<and>
          ContainsRune ''Was ist jenes?'' CHR ''?'' \<and>
          ''Was ist jenes?'' = questionWithTextText sameNumberTwice 3 ''Was ist jenes?'')"
    by (rule disjI2)
  have h3: "Atoi ''7'' = Some 7" by code_simp
  have h4: "(1::int) \<le> 7" by simp
  have h5: "length ''Was ist jenes?'' > 5" by simp
  have a: "map_of (rawQuestions ?s) 7 =
     Some \<lparr>number = 7, rtext = ''Was ist das hier?'',
           options = [(''a'', \<lparr>Letter = ''a'', Text = ''Foo'', Correct = False\<rparr>)]\<rparr>"
    by code_simp
  have c: "Questions (parseText ''2025-01-01T00:00:00Z'' (textOf sameNumberTwice)) =
     [\<lparr>ID = 7, QText = ''Was ist jenes?'',
       Options = [\<lparr>Letter = ''b'', Text = ''Bar'', Correct = False\<rparr>],
       Category = []\<rparr>]"
    by code_simp
  from later_question_overwrites_draft [OF h1 h2 h3 h4 h5, of ?s]
  have "map_of (rawQuestions (step sameNumberTwice 3 ?s)) 7 =
     Some \<lparr>number = 7, rtext = ''Was ist jenes?'', options = []\<rparr>"
    by (rule conjunct1)
  with a c show ?thesis by (intro conjI)
qed

text \<open>
  C5.  The claim: while the text of an option is collected, a line that holds the
  category marker or any of the four boilerplate markers ends the collection.  The two
  loops test \<open>Sachgebiet\<close> and \<open>Stand:\<close> only: in \<open>optionThenPage\<close> the lines with
  \<open>Seite\<close>, \<open>Zweitkorrektor\<close> and \<open>HERAUSGEBER\<close> are joined to the text of option a.
\<close>

theorem page_label_joined_counterexample:
  "boilerplate ''Seite 3'' \<and> boilerplate ''Zweitkorrektor: N.N.'' \<and>
   boilerplate ''HERAUSGEBER'' \<and>
   optionLines optionThenPage 2 = [''Seite 3'', ''Zweitkorrektor: N.N.'', ''HERAUSGEBER''] \<and>
   map (\<lambda>q. map Text (Options q))
     (Questions (parseText ''2025-01-01T00:00:00Z'' (textOf optionThenPage))) =
     [[''Foo Seite 3 Zweitkorrektor: N.N. HERAUSGEBER'', ''Bar'']]"
  by code_simp

text \<open>
  C5, amended.  While the text of an option is collected, a line that holds the category
  marker \<open>Sachgebiet\<close> or the date label \<open>Stand:\<close> ends the collection: neither this line
  nor a line after it is joined to the text.  No other label does: when no line up to
  line \<open>j\<close> is of the shape of an option or of a question or holds \<open>Sachgebiet\<close> or
  \<open>Stand:\<close>, every such line that is not blank is joined, whether or not it holds
  \<open>Seite\<close>, \<open>Zweitkorrektor\<close> or \<open>HERAUSGEBER\<close>, and the loop goes on after line \<open>j\<close>.
  The loops that collect the text of a question stop at the shape of an option or of a
  question only (and, after a number alone, at an "X" alone): there a line with
  \<open>Sachgebiet\<close> or \<open>Stand:\<close> is joined as well.
\<close>

theorem option_collection_terminators:
  "(i < k \<and> k < length lines \<and>
      (Contains (TrimSpace (lines ! k)) ''Sachgebiet'' \<or>
       Contains (TrimSpace (lines ! k)) ''Stand:'') \<longrightarrow>
      optionLines lines i = optionLines (take k lines) i \<and>
      optionText lines i m2 = optionText (take k lines) i m2) \<and>
   (i < j \<and> j < length lines \<and> j < i + 8 \<and>
      (\<forall>k. i < k \<and> k \<le> j \<longrightarrow>
         \<not> isOption (TrimSpace (lines ! k)) \<and> \<not> isOptionWithX (TrimSpace (lines ! k)) \<and>
         \<not> isQuestion (TrimSpace (lines ! k)) \<and>
         \<not> Contains (TrimSpace (lines ! k)) ''Sachgebiet'' \<and>
         \<not> Contains (TrimSpace (lines ! k)) ''Stand:'') \<longrightarrow>
      optionLines lines i =
        nonBlankLines lines (i + 1) (j + 1) @ collectLines optionStop 8 lines i (j + 1)) \<and>
   (i < j \<and> j < length lines \<and> j < i + 15 \<and>
      (\<forall>k. i < k \<and> k \<le> j \<longrightarrow>
         \<not> isOption (TrimSpace (lines ! k)) \<and> \<not> isOptionWithX (TrimSpace (lines ! k)) \<and>
         \<not> justXPattern (TrimSpace (lines ! k)) \<and> \<not> isQuestion (TrimSpace (lines ! k))) \<longrightarrow>
      questionOnlyLines lines i =
        nonBlankLines lines (i + 1) (j + 1) @
        collectLines questionOnlyStop 15 lines i (j + 1)) \<and>
   (i < j \<and> j < length lines \<and> j < i + 10 \<and>
      (\<forall>k. i < k \<and> k \<le> j \<longrightarrow>
         \<not> isOption (TrimSpace (lines ! k)) \<and> \<not> isQuestion (TrimSpace (lines ! k))) \<longrightarrow>
      questionWithTextLines lines i =
        nonBlankLines lines (i + 1) (j + 1) @
        collectLines questionWithTextStop 10 lines i (j + 1))"
proof -
  have p1: "optionLines lines i = optionLines (take k lines) i \<and>
      optionText lines i m2 = optionText (take k lines) i m2"
    if h: "i < k \<and> k < length lines \<and>
      (Contains (TrimSpace (lines ! k)) ''Sachgebiet'' \<or>
       Contains (TrimSpace (lines ! k)) ''Stand:'')"
  proof -
    let ?l = "TrimSpace (lines ! k)"
    have ne: "\<not> emptyLinePattern ?l"
      using h Contains_not_empty [of ?l "''Sachgebiet''" "CHR ''S''"]
        Contains_not_empty [of ?l "''Stand:''" "CHR ''S''"]
      by (auto simp: isS_def)
    have st: "optionStop ?l" using h by (auto simp: optionStop_def)
    have "collectLines optionStop 8 (take k lines) i (i + 1) =
          collectLines optionStop 8 lines i (i + 1)"
      using h ne st by (intro collectLines_stop_at) simp_all
    then have a: "optionLines lines i = optionLines (take k lines) i"
      by (simp add: optionLines_def)
    then have "optionText lines i m2 = optionText (take k lines) i m2"
      by (simp add: optionText_def)
    with a show ?thesis by blast
  qed
  have p2: "optionLines lines i =
        nonBlankLines lines (i + 1) (j + 1) @ collectLines optionStop 8 lines i (j + 1)"
    if h: "i < j \<and> j < length lines \<and> j < i + 8 \<and>
      (\<forall>k. i < k \<and> k \<le> j \<longrightarrow>
         \<not> isOption (TrimSpace (lines ! k)) \<and> \<not> isOptionWithX (TrimSpace (lines ! k)) \<and>
         \<not> isQuestion (TrimSpace (lines ! k)) \<and>
         \<not> Contains (TrimSpace (lines ! k)) ''Sachgebiet'' \<and>
         \<not> Contains (TrimSpace (lines ! k)) ''Stand:'')"
  proof -
    from h have "\<forall>k. i < k \<and> k \<le> j \<longrightarrow> \<not> optionStop (TrimSpace (lines ! k))"
      by (simp add: optionStop_def)
    with h show ?thesis
      unfolding optionLines_def by (intro collectLines_plain) simp_all
  qed
  have p3: "questionOnlyLines lines i =
        nonBlankLines lines (i + 1) (j + 1) @
        collectLines questionOnlyStop 15 lines i (j + 1)"
    if h: "i < j \<and> j < length lines \<and> j < i + 15 \<and>
      (\<forall>k. i < k \<and> k \<le> j \<longrightarrow>
         \<not> isOption (TrimSpace (lines ! k)) \<and> \<not> isOptionWithX (TrimSpace (lines ! k)) \<and>
         \<not> justXPattern (TrimSpace (lines ! k)) \<and> \<not> isQuestion (TrimSpace (lines ! k)))"
  proof -
    from h have "\<forall>k. i < k \<and> k \<le> j \<longrightarrow> \<not> questionOnlyStop (TrimSpace (lines ! k))"
      by (simp add: questionOnlyStop_def)
    with h show ?thesis
      unfolding questionOnlyLines_def by (intro collectLines_plain) simp_all
  qed
  have p4: "questionWithTextLines lines i =
        nonBlankLines lines (i + 1) (j + 1) @
        collectLines questionWithTextStop 10 lines i (j + 1)"
    if h: "i < j \<and> j < length lines \<and> j < i + 10 \<and>
      (\<forall>k. i < k \<and> k \<le> j \<longrightarrow>
         \<not> isOption (TrimSpace (lines ! k)) \<and> \<not> isQuestion (TrimSpace (lines ! k)))"
  proof -
    from h have "\<forall>k. i < k \<and> k \<le> j \<longrightarrow> \<not> questionWithTextStop (TrimSpace (lines ! k))"
      by (simp add: questionWithTextStop_def)
    with h show ?thesis
      unfolding questionWithTextLines_def by (intro collectLines_plain) simp_all
  qed
  from p1 p2 p3 p4 show ?thesis by blast
qed

theorem option_collection_terminators_witness:
  "optionLines optionThenDate 0 = optionLines (take 2 optionThenDate) 0 \<and>
   optionLines optionThenDate 0 = [''und mehr''] \<and>
   optionText optionThenDate 0 ''Foo'' = ''Foo und mehr'' \<and>
   boilerplate (TrimSpace (optionThenPage ! 3)) \<and>
   boilerplate (TrimSpace (optionThenPage ! 4)) \<and>
   boilerplate (TrimSpace (optionThenPage ! 5)) \<and>
   optionLines optionThenPage 2 =
     nonBlankLines optionThenPage (2 + 1) (5 + 1) @
     collectLines optionStop 8 optionThenPage 2 (5 + 1) \<and>
   nonBlankLines optionThenPage (2 + 1) (5 + 1) =
     [''Seite 3'', ''Zweitkorrektor: N.N.'', ''HERAUSGEBER''] \<and>
   questionOnlyLines questionThenDate 0 =
     nonBlankLines questionThenDate (0 + 1) (2 + 1) @
     collectLines questionOnlyStop 15 questionThenDate 0 (2 + 1) \<and>
   questionWithTextLines inlineThenDate 0 =
     nonBlankLines inlineThenDate (0 + 1) (2 + 1) @
     collectLines questionWithTextStop 10 inlineThenDate 0 (2 + 1) \<and>
   nonBlankLines questionThenDate (0 + 1) (2 + 1) = [''Wer? Stand: 2025'', ''Sachgebiet''] \<and>
   nonBlankLines inlineThenDate (0 + 1) (2 + 1) = [''Stand: 2025'', ''Sachgebiet'']"
proof -
  note t = option_collection_terminators
  have h1: "(0::nat) < 2 \<and> 2 < length optionThenDate \<and>
      (Contains (TrimSpace (optionThenDate ! 2)) ''Sachgebiet'' \<or>
       Contains (TrimSpace (optionThenDate ! 2)) ''Stand:'')"
    by code_simp
  have a: "optionLines optionThenDate 0 = [''und mehr'']" by code_simp
  have b: "optionText optionThenDate 0 ''Foo'' = ''Foo und mehr''" by code_simp
  have c: "optionLines optionThenDate 0 = optionLines (take 2 optionThenDate) 0"
    using t [of 0 2 optionThenDate "''Foo''", THEN conjunct1] h1 by blast
  have k2: "k = 3 \<or> k = 4 \<or> k = 5" if "2 < k \<and> k \<le> 5" for k :: nat
    using that by arith
  have e2: "\<not> isOption (TrimSpace (optionThenPage ! k)) \<and>
         \<not> isOptionWithX (TrimSpace (optionThenPage ! k)) \<and>
         \<not> isQuestion (TrimSpace (optionThenPage ! k)) \<and>
         \<not> Contains (TrimSpace (optionThenPage ! k)) ''Sachgebiet'' \<and>
         \<not> Contains (TrimSpace (optionThenPage ! k)) ''Stand:''"
    if "k = 3 \<or> k = 4 \<or> k = 5" for k
    using that by (elim disjE) (simp_all only:, code_simp+)
  have h2: "(2::nat) < 5 \<and> 5 < length optionThenPage \<and> (5::nat) < 2 + 8 \<and>
      (\<forall>k. 2 < k \<and> k \<le> 5 \<longrightarrow>
         \<not> isOption (TrimSpace (optionThenPage ! k)) \<and>
         \<not> isOptionWithX (TrimSpace (optionThenPage ! k)) \<and>
         \<not> isQuestion (TrimSpace (optionThenPage ! k)) \<and>
         \<not> Contains (TrimSpace (optionThenPage ! k)) ''Sachgebiet'' \<and>
         \<not> Contains (TrimSpace (optionThenPage ! k)) ''Stand:'')"
  proof -
    have l: "5 < length optionThenPage" by code_simp
    from k2 e2 l show ?thesis by auto
  qed
  have d: "optionLines optionThenPage 2 =
     nonBlankLines optionThenPage (2 + 1) (5 + 1) @
     collectLines optionStop 8 optionThenPage 2 (5 + 1)"
    using t [of 2 _ optionThenPage _ 5, THEN conjunct2, THEN conjunct1] h2 by blast
  have bp: "boilerplate (TrimSpace (optionThenPage ! 3)) \<and>
   boilerplate (TrimSpace (optionThenPage ! 4)) \<and>
   boilerplate (TrimSpace (optionThenPage ! 5)) \<and>
   nonBlankLines optionThenPage (2 + 1) (5 + 1) =
     [''Seite 3'', ''Zweitkorrektor: N.N.'', ''HERAUSGEBER''] \<and>
   nonBlankLines questionThenDate (0 + 1) (2 + 1) = [''Wer? Stand: 2025'', ''Sachgebiet''] \<and>
   nonBlankLines inlineThenDate (0 + 1) (2 + 1) = [''Stand: 2025'', ''Sachgebiet'']"
    by code_simp
  have k3: "k = 1 \<or> k = 2" if "0 < k \<and> k \<le> 2" for k :: nat
    using that by arith
  have e3: "\<not> isOption (TrimSpace (questionThenDate ! k)) \<and>
         \<not> isOptionWithX (TrimSpace (questionThenDate ! k)) \<and>
         \<not> justXPattern (TrimSpace (questionThenDate ! k)) \<and>
         \<not> isQuestion (TrimSpace (questionThenDate ! k))"
    if "k = 1 \<or> k = 2" for k
    using that by (elim disjE) (simp_all only:, code_simp+)
  have h3: "(0::nat) < 2 \<and> 2 < length questionThenDate \<and> (2::nat) < 0 + 15 \<and>
      (\<forall>k. 0 < k \<and> k \<le> 2 \<longrightarrow>
         \<not> isOption (TrimSpace (questionThenDate ! k)) \<and>
         \<not> isOptionWithX (TrimSpace (questionThenDate ! k)) \<and>
         \<not> justXPattern (TrimSpace (questionThenDate ! k)) \<and>
         \<not> isQuestion (TrimSpace (questionThenDate ! k)))"
  proof -
    have l: "2 < length questionThenDate" by code_simp
    from k3 e3 l show ?thesis by auto
  qed
  have e: "questionOnlyLines questionThenDate 0 =
     nonBlankLines questionThenDate (0 + 1) (2 + 1) @
     collectLines questionOnlyStop 15 questionThenDate 0 (2 + 1)"
    using t [of 0 _ questionThenDate _ 2, THEN conjunct2, THEN conjunct2, THEN conjunct1] h3
    by blast
  have e4: "\<not> isOption (TrimSpace (inlineThenDate ! k)) \<and>
         \<not> isQuestion (TrimSpace (inlineThenDate ! k))"
    if "k = 1 \<or> k = 2" for k
    using that by (elim disjE) (simp_all only:, code_simp+)
  have h4: "(0::nat) < 2 \<and> 2 < length inlineThenDate \<and> (2::nat) < 0 + 10 \<and>
      (\<forall>k. 0 < k \<and> k \<le> 2 \<longrightarrow>
         \<not> isOption (TrimSpace (inlineThenDate ! k)) \<and>
         \<not> isQuestion (TrimSpace (inlineThenDate ! k)))"
  proof -
    have l: "2 < length inlineThenDate" by code_simp
    from k3 e4 l show ?thesis by auto
  qed
  have f: "questionWithTextLines inlineThenDate 0 =
     nonBlankLines inlineThenDate (0 + 1) (2 + 1) @
     collectLines questionWithTextStop 10 inlineThenDate 0 (2 + 1)"
    using t [of 0 _ inlineThenDate _ 2, THEN conjunct2, THEN conjunct2, THEN conjunct2] h4
    by blast
  from a b c d e f bp show ?thesis by blast
qed

text \<open>
  C6.  The loops that collect lines are capped: at most 15 lines are joined after a line
  with a question number only, at most 10 after a question with text, at most 8 after an
  option; and no line from index \<open>i + 15\<close>, \<open>i + 10\<close>, \<open>i + 8\<close> on is read.  (The loops
  run while \<open>j < i + cap\<close> from \<open>j = i + 1\<close>, so they join 14, 9 and 7 lines at most, as
  \<open>length_collectLines\<close> says and the example shows.)
\<close>

theorem continuation_caps:
  "length (questionOnlyLines lines i) \<le> 15 \<and>
   length (questionWithTextLines lines i) \<le> 10 \<and>
   length (optionLines lines i) \<le> 8 \<and>
   questionOnlyLines (take (i + 15) lines) i = questionOnlyLines lines i \<and>
   questionWithTextLines (take (i + 10) lines) i = questionWithTextLines lines i \<and>
   optionLines (take (i + 8) lines) i = optionLines lines i"
proof -
  have "length (questionOnlyLines lines i) \<le> 15"
    using length_collectLines [of questionOnlyStop 15 lines i "i + 1"]
    by (simp add: questionOnlyLines_def)
  moreover have "length (questionWithTextLines lines i) \<le> 10"
    using length_collectLines [of questionWithTextStop 10 lines i "i + 1"]
    by (simp add: questionWithTextLines_def)
  moreover have "length (optionLines lines i) \<le> 8"
    using length_collectLines [of optionStop 8 lines i "i + 1"]
    by (simp add: optionLines_def)
  ultimately show ?thesis
    by (simp add: questionOnlyLines_def questionWithTextLines_def optionLines_def
        collectLines_take)
qed

theorem continuation_caps_witness:
  "length (questionOnlyLines (''7.'' # replicate 20 ''Wort'') 0) = 14 \<and>
   length (questionWithTextLines (''7. Was?'' # replicate 20 ''Wort'') 0) = 9 \<and>
   length (optionLines (''a) Foo'' # replicate 20 ''Wort'') 0) = 7 \<and>
   length (questionOnlyLines (''7.'' # replicate 20 ''Wort'') 0) \<le> 15"
proof -
  have "length (questionOnlyLines (''7.'' # replicate 20 ''Wort'') 0) = 14 \<and>
   length (questionWithTextLines (''7. Was?'' # replicate 20 ''Wort'') 0) = 9 \<and>
   length (optionLines (''a) Foo'' # replicate 20 ''Wort'') 0) = 7"
    by code_simp
  with continuation_caps [of "''7.'' # replicate 20 ''Wort''" 0] show ?thesis
    by blast
qed

text \<open>
  C7.  The claim: a raw question whose text has at most 5 characters, or that has no
  option, is never in the catalog, and every question of the catalog has a text of more
  than 5 characters.  The two tests of the code are \<open>len(qText) > 5\<close> and
  \<open>len(rq.text) > 5\<close>, and \<open>len\<close> counts bytes: in \<open>fiveCharacters\<close> the text of
  question 7 has 5 characters and 6 bytes, and the question is in the catalog, while the
  same text with \<open>O\<close> for the umlaut, of 5 bytes, is dropped.
\<close>

theorem five_characters_counterexample:
  "characters ([CHR 0xC3, CHR 0x96] @ ''fen?'') = 5 \<and>
   length ([CHR 0xC3, CHR 0x96] @ ''fen?'') = 6 \<and>
   Questions (parseText ''2025-01-01T00:00:00Z'' (textOf fiveCharacters)) =
     [\<lparr>ID = 7, QText = [CHR 0xC3, CHR 0x96] @ ''fen?'',
       Options = [\<lparr>Letter = ''a'', Text = ''Ja'', Correct = False\<rparr>],
       Category = []\<rparr>] \<and>
   Questions (parseText ''2025-01-01T00:00:00Z''
       (textOf [''1.1 Intro'', ''7. Ofen?'', ''a) Ja''])) = []"
  by code_simp

text \<open>
  C7, amended.  With the length of a text counted in bytes: a text of at most 5 bytes
  collected for a question line stores no raw question, so every raw question at the end
  of the loop has a text longer than 5 bytes; every question of the catalog has a text
  longer than 5 bytes and at least one option; a raw question at the end of the loop that
  has no option is not in the catalog.  The last loop by itself, from any state \<open>s\<close> and
  any order of the keys: every question that it emits is a raw question of \<open>s\<close> with a
  text longer than 5 bytes and an option map that is not empty; so, when the raw questions
  are stored under their numbers, one whose text has at most 5 bytes or that has no option
  is not in the catalog.
\<close>

theorem final_questions_complete:
  "(length qText \<le> 5 \<longrightarrow> putQuestion n qText s = s) \<and>
   list_all (\<lambda>e. 5 < length (rtext (snd e))) (rawQuestions (finalState txt)) \<and>
   list_all (\<lambda>q. length (QText q) > 5 \<and> length (Options q) \<ge> 1)
     (Questions (parseText now txt)) \<and>
   (\<forall>n rq. map_of (rawQuestions (finalState txt)) n = Some rq \<and> options rq = [] \<longrightarrow>
        n \<notin> ID ` set (Questions (parseText now txt))) \<and>
   (\<forall>q\<in>set (Questions (buildCatalog now s keys)).
      \<exists>n rq. map_of (rawQuestions s) n = Some rq \<and> 5 < length (rtext rq) \<and>
        options rq \<noteq> [] \<and> ID q = number rq \<and> QText q = rtext rq) \<and>
   (list_all (\<lambda>e. number (snd e) = fst e) (rawQuestions s) \<longrightarrow>
      (\<forall>n rq. map_of (rawQuestions s) n = Some rq \<and>
           (length (rtext rq) \<le> 5 \<or> options rq = []) \<longrightarrow>
           n \<notin> ID ` set (Questions (buildCatalog now s keys))))"
proof -
  let ?s = "finalState txt"
  have ok: "draftsOk ?s" by (rule draftsOk_finalState)
  have p0: "length qText \<le> 5 \<longrightarrow> putQuestion n qText s = s"
    by (simp add: putQuestion_def)
  have p1: "list_all (\<lambda>e. 5 < length (rtext (snd e))) (rawQuestions ?s)"
    using ok by (auto simp: draftsOk_def list_all_iff draftOk_def)
  have a: "length (QText q) > 5 \<and> length (Options q) \<ge> 1"
    if "q \<in> set (Questions (parseText now txt))" for q
  proof -
    from that obtain n rq where r: "map_of (rawQuestions ?s) n = Some rq"
      "length (rtext rq) > 5" "options rq \<noteq> []"
      "q = \<lparr>ID = number rq, QText = rtext rq, Options = buildOptions rq,
          Category = currentCategory ?s\<rparr>"
      unfolding Questions_parseText by (blast dest: in_buildQuestions)
    from ok r(1) have "optionsOk (options rq)" by (simp add: draftsOk_lookup)
    with r(3) have "buildOptions rq \<noteq> []" by (simp add: buildOptions_nonempty)
    with r show ?thesis by (cases "buildOptions rq") auto
  qed
  then have p2: "list_all (\<lambda>q. length (QText q) > 5 \<and> length (Options q) \<ge> 1)
     (Questions (parseText now txt))"
    by (simp add: list_all_iff)
  have p4: "\<exists>n rq. map_of (rawQuestions s) n = Some rq \<and> 5 < length (rtext rq) \<and>
        options rq \<noteq> [] \<and> ID q = number rq \<and> QText q = rtext rq"
    if "q \<in> set (Questions (buildCatalog now s keys))" for q s keys
  proof -
    from that have "q \<in> set (buildQuestions s (sortOuter keys 0))"
      by (simp add: buildCatalog_def Let_def)
    then obtain n rq where "map_of (rawQuestions s) n = Some rq"
      "length (rtext rq) > 5" "options rq \<noteq> []"
      "q = \<lparr>ID = number rq, QText = rtext rq, Options = buildOptions rq,
          Category = currentCategory s\<rparr>"
      by (blast dest: in_buildQuestions)
    then show ?thesis by auto
  qed
  have p5: "n \<notin> ID ` set (Questions (buildCatalog now s keys))"
    if st: "list_all (\<lambda>e. number (snd e) = fst e) (rawQuestions s)"
      and m: "map_of (rawQuestions s) n = Some rq"
      and sh: "length (rtext rq) \<le> 5 \<or> options rq = []"
    for n rq s keys
  proof
    assume "n \<in> ID ` set (Questions (buildCatalog now s keys))"
    then obtain q where q: "q \<in> set (Questions (buildCatalog now s keys))" "ID q = n"
      by auto
    from p4 [OF q(1)] obtain n' rq' where r: "map_of (rawQuestions s) n' = Some rq'"
      "5 < length (rtext rq')" "options rq' \<noteq> []" "ID q = number rq'"
      by blast
    from r(1) have "(n', rq') \<in> set (rawQuestions s)" by (rule map_of_SomeD)
    with st have "number rq' = n'" by (auto simp: list_all_iff)
    with r(4) q(2) have "n' = n" by simp
    with r(1) m have "rq' = rq" by simp
    with r(2,3) sh show False by auto
  qed
  have p3: "n \<notin> ID ` set (Questions (parseText now txt))"
    if "map_of (rawQuestions ?s) n = Some rq" "options rq = []" for n rq
  proof -
    have "list_all (\<lambda>e. number (snd e) = fst e) (rawQuestions ?s)"
      using ok by (auto simp: draftsOk_def list_all_iff draftOk_def)
    from p5 [OF this that(1), of "map fst (rawQuestions ?s)"] that(2) show ?thesis
      by (simp add: parseText_def Let_def)
  qed
  have q4: "\<forall>q\<in>set (Questions (buildCatalog now s keys)).
      \<exists>n rq. map_of (rawQuestions s) n = Some rq \<and> 5 < length (rtext rq) \<and>
        options rq \<noteq> [] \<and> ID q = number rq \<and> QText q = rtext rq"
    using p4 by (intro ballI)
  have q3: "\<forall>n rq. map_of (rawQuestions (finalState txt)) n = Some rq \<and> options rq = [] \<longrightarrow>
        n \<notin> ID ` set (Questions (parseText now txt))"
    using p3 by (intro allI impI) (elim conjE)
  have q5: "list_all (\<lambda>e. number (snd e) = fst e) (rawQuestions s) \<longrightarrow>
      (\<forall>n rq. map_of (rawQuestions s) n = Some rq \<and>
           (length (rtext rq) \<le> 5 \<or> options rq = []) \<longrightarrow>
           n \<notin> ID ` set (Questions (buildCatalog now s keys)))"
    using p5 by (intro allI impI) (elim conjE)
  from p0 p1 p2 q3 q4 q5 show ?thesis by (intro conjI)
qed

theorem final_questions_complete_witness:
  "map_of (rawQuestions (finalState (textOf twoQuestions))) 5 =
     Some \<lparr>number = 5, rtext = ''Wer darf jagen?'', options = []\<rparr> \<and>
   5 \<notin> ID ` set (Questions (parseText ''2025-01-01T00:00:00Z'' (textOf twoQuestions))) \<and>
   map ID (Questions (parseText ''2025-01-01T00:00:00Z'' (textOf twoQuestions))) = [7, 12] \<and>
   list_all (\<lambda>q. length (QText q) > 5 \<and> length (Options q) \<ge> 1)
     (Questions (parseText ''2025-01-01T00:00:00Z'' (textOf twoQuestions))) \<and>
   putQuestion 8 ''Was?'' shortDraft = shortDraft \<and>
   map_of (rawQuestions shortDraft) 3 =
     Some \<lparr>number = 3, rtext = ''Kurz'',
           options = [(''a'', \<lparr>Letter = ''a'', Text = ''Ja'', Correct = True\<rparr>)]\<rparr> \<and>
   3 \<notin> ID ` set (Questions (buildCatalog ''2025-01-01T00:00:00Z'' shortDraft [4, 3])) \<and>
   map ID (Questions (buildCatalog ''2025-01-01T00:00:00Z'' shortDraft [4, 3])) = [4]"
proof -
  let ?rq5 = "\<lparr>number = 5, rtext = ''Wer darf jagen?'', options = []\<rparr>"
  let ?rq3 = "\<lparr>number = 3, rtext = ''Kurz'',
           options = [(''a'', \<lparr>Letter = ''a'', Text = ''Ja'', Correct = True\<rparr>)]\<rparr>"
  have e: "map_of (rawQuestions (finalState (textOf twoQuestions))) 5 = Some ?rq5"
    by code_simp
  have n: "map ID (Questions (parseText ''2025-01-01T00:00:00Z'' (textOf twoQuestions))) =
      [7, 12]"
    by code_simp
  have e3: "map_of (rawQuestions shortDraft) 3 = Some ?rq3" by code_simp
  have n3: "map ID (Questions (buildCatalog ''2025-01-01T00:00:00Z'' shortDraft [4, 3])) = [4]"
    by code_simp
  have st: "list_all (\<lambda>e. number (snd e) = fst e) (rawQuestions shortDraft)"
    by code_simp
  have sh: "length (rtext ?rq3) \<le> 5 \<or> options ?rq3 = []" by simp
  have l: "length ''Was?'' \<le> 5" by simp
  note t = final_questions_complete [of "''Was?''" 8 shortDraft "textOf twoQuestions"
      "''2025-01-01T00:00:00Z''" "[4, 3]"]
  have p: "putQuestion 8 ''Was?'' shortDraft = shortDraft"
    using t [THEN conjunct1] l by (rule mp)
  have a: "list_all (\<lambda>q. length (QText q) > 5 \<and> length (Options q) \<ge> 1)
     (Questions (parseText ''2025-01-01T00:00:00Z'' (textOf twoQuestions)))"
    by (rule t [THEN conjunct2, THEN conjunct2, THEN conjunct1])
  have b: "5 \<notin> ID ` set (Questions (parseText ''2025-01-01T00:00:00Z''
      (textOf twoQuestions)))"
    by (rule t [THEN conjunct2, THEN conjunct2, THEN conjunct2, THEN conjunct1,
          rule_format, of 5 ?rq5]) (simp add: e)
  have c: "3 \<notin> ID ` set (Questions (buildCatalog ''2025-01-01T00:00:00Z'' shortDraft [4, 3]))"
    by (rule t [THEN conjunct2, THEN conjunct2, THEN conjunct2, THEN conjunct2,
          THEN conjunct2, rule_format, of 3 ?rq3]) (simp_all add: st e3)
  from e b n a p e3 c n3 show ?thesis by (intro conjI)
qed

text \<open>
  C8.  In every question of the catalog the letters of the options are distinct, each is
  one of a to f, and they stand in strictly ascending (alphabetical) order, whatever the
  order of the option lines in the input: they are the letters of the sequence a to f
  that are keys of the raw question's option map, and every option of the catalog is one
  that this map stores.
\<close>

theorem option_letters_ordered:
  "list_all (\<lambda>q. distinct (map Letter (Options q)) \<and>
                 set (map Letter (Options q)) \<subseteq> set letters \<and>
                 sorted_wrt (<) (map Letter (Options q)) \<and>
                 (case map_of (rawQuestions (finalState txt)) (ID q) of
                    None \<Rightarrow> False
                  | Some rq \<Rightarrow>
                      map Letter (Options q) =
                        filter (\<lambda>l. map_of (options rq) l \<noteq> None) letters \<and>
                      set (Options q) \<subseteq> snd ` set (options rq)))
     (Questions (parseText now txt))"
proof -
  let ?s = "finalState txt"
  have ok: "draftsOk ?s" by (rule draftsOk_finalState)
  have "distinct (map Letter (Options q)) \<and>
                 set (map Letter (Options q)) \<subseteq> set letters \<and>
                 sorted_wrt (<) (map Letter (Options q)) \<and>
                 (case map_of (rawQuestions (finalState txt)) (ID q) of
                    None \<Rightarrow> False
                  | Some rq \<Rightarrow>
                      map Letter (Options q) =
                        filter (\<lambda>l. map_of (options rq) l \<noteq> None) letters \<and>
                      set (Options q) \<subseteq> snd ` set (options rq))"
    if "q \<in> set (Questions (parseText now txt))" for q
  proof -
    from that obtain n rq where r: "map_of (rawQuestions ?s) n = Some rq"
      "q = \<lparr>ID = number rq, QText = rtext rq, Options = buildOptions rq,
          Category = currentCategory ?s\<rparr>"
      unfolding Questions_parseText by (blast dest: in_buildQuestions)
    from ok r(1) have o: "optionsOk (options rq)" and n: "number rq = n"
      by (simp_all add: draftsOk_lookup)
    have l: "map Letter (Options q) = filter (\<lambda>l. map_of (options rq) l \<noteq> None) letters"
      using o r(2) by (simp add: Letter_buildOptions_filter)
    have "distinct (map Letter (Options q))"
      unfolding l using letters_distinct by (rule distinct_filter)
    moreover have "set (map Letter (Options q)) \<subseteq> set letters"
      unfolding l by auto
    moreover have "sorted_wrt (<) (map Letter (Options q))"
      unfolding l using letters_sorted by (rule sorted_wrt_filter)
    moreover have "set (Options q) \<subseteq> snd ` set (options rq)"
      using r(2) buildOptions_stored [of rq] by simp
    ultimately show ?thesis using l r n by simp
  qed
  then show ?thesis by (simp add: list_all_iff)
qed

theorem option_letters_ordered_witness:
  "map (\<lambda>q. map Letter (Options q))
     (Questions (parseText ''2025-01-01T00:00:00Z'' (textOf twoQuestions))) =
     [[''a''], [''a'', ''b'']] \<and>
   list_all (\<lambda>q. distinct (map Letter (Options q)) \<and>
                 sorted_wrt (<) (map Letter (Options q)))
     (Questions (parseText ''2025-01-01T00:00:00Z'' (textOf twoQuestions)))"
proof -
  have a: "map (\<lambda>q. map Letter (Options q))
     (Questions (parseText ''2025-01-01T00:00:00Z'' (textOf twoQuestions))) =
     [[''a''], [''a'', ''b'']]"
    by code_simp
  from option_letters_ordered [of "textOf twoQuestions" "''2025-01-01T00:00:00Z''"]
  have "list_all (\<lambda>q. distinct (map Letter (Options q)) \<and>
                 sorted_wrt (<) (map Letter (Options q)))
     (Questions (parseText ''2025-01-01T00:00:00Z'' (textOf twoQuestions)))"
    by (simp add: list_all_iff)
  with a show ?thesis by blast
qed

text \<open>
  C9.  In every catalog the IDs of the questions are positive and distinct and stand in
  strictly ascending order; every key of the map of raw questions is at least 1 (a line
  whose number is below 1 is skipped).
\<close>

theorem question_ids_ascending:
  "sorted_wrt (<) (map ID (Questions (parseText now txt))) \<and>
   distinct (map ID (Questions (parseText now txt))) \<and>
   list_all (\<lambda>q. 0 < ID q) (Questions (parseText now txt)) \<and>
   list_all (\<lambda>e. 1 \<le> fst e) (rawQuestions (finalState txt))"
proof -
  let ?s = "finalState txt"
  have ok: "draftsOk ?s" by (rule draftsOk_finalState)
  have ids: "map ID (Questions (parseText now txt)) = filter (keep ?s) (questionNums ?s)"
    using ok by (simp add: Questions_parseText ID_buildQuestions)
  have st: "sorted_wrt (<) (map ID (Questions (parseText now txt)))"
    unfolding ids using questionNums_strict [OF ok] by (rule sorted_wrt_filter)
  then have di: "distinct (map ID (Questions (parseText now txt)))"
    by (simp add: strict_sorted_iff)
  have "0 < ID q" if "q \<in> set (Questions (parseText now txt))" for q
  proof -
    from that have "ID q \<in> set (map ID (Questions (parseText now txt)))" by simp
    then have "ID q \<in> set (questionNums ?s)" unfolding ids by simp
    with questionNums_positive [OF ok] show ?thesis by fastforce
  qed
  then have po: "list_all (\<lambda>q. 0 < ID q) (Questions (parseText now txt))"
    by (simp add: list_all_iff)
  have "list_all (\<lambda>e. 1 \<le> fst e) (rawQuestions ?s)"
    using ok by (auto simp: draftsOk_def list_all_iff draftOk_def)
  with st di po show ?thesis by blast
qed

theorem question_ids_ascending_witness:
  "map fst (rawQuestions (finalState (textOf twoQuestions))) = [12, 7, 5] \<and>
   map ID (Questions (parseText ''2025-01-01T00:00:00Z'' (textOf twoQuestions))) = [7, 12] \<and>
   sorted_wrt (<) (map ID (Questions (parseText ''2025-01-01T00:00:00Z''
     (textOf twoQuestions))))"
proof -
  have "map fst (rawQuestions (finalState (textOf twoQuestions))) = [12, 7, 5] \<and>
   map ID (Questions (parseText ''2025-01-01T00:00:00Z'' (textOf twoQuestions))) = [7, 12]"
    by code_simp
  with question_ids_ascending [of "''2025-01-01T00:00:00Z''" "textOf twoQuestions"]
  show ?thesis by blast
qed

text \<open>
  C10.  A line that is an "X" alone (pattern \<open>^\s*X\s*$\<close> on the trimmed line) sets
  \<open>nextOptionIsCorrect\<close> when \<open>lastQuestionNum > 0\<close> and only then: when no question
  line has set \<open>lastQuestionNum\<close> yet, the round leaves every variable of the parser as
  it was, and the loop goes on from the next line in the same state.
\<close>

theorem standalone_X_needs_open_question:
  assumes "justXPattern (TrimSpace (lines ! i))"
  shows "step lines i s =
           (if lastQuestionNum s > 0 then s\<lparr>nextOptionIsCorrect := True\<rparr> else s) \<and>
         (i < length lines \<and> lastQuestionNum s \<le> 0 \<longrightarrow>
            mainLoop lines i s = mainLoop lines (i + 1) s)"
proof -
  have st: "step lines i s =
           (if lastQuestionNum s > 0 then s\<lparr>nextOptionIsCorrect := True\<rparr> else s)"
    using assms by (rule step_justX)
  then have "i < length lines \<and> lastQuestionNum s \<le> 0 \<longrightarrow>
      mainLoop lines i s = mainLoop lines (i + 1) s"
    by (subst mainLoop.simps) simp
  with st show ?thesis by blast
qed

theorem standalone_X_needs_open_question_witness:
  "justXPattern (TrimSpace ([''1.1 Intro'', ''X'', ''a) Foo''] ! 1)) \<and>
   step [''1.1 Intro'', ''X'', ''a) Foo''] 1 (initialState []) = initialState [] \<and>
   mainLoop [''1.1 Intro'', ''X'', ''a) Foo''] 1 (initialState []) =
     mainLoop [''1.1 Intro'', ''X'', ''a) Foo''] (1 + 1) (initialState [])"
proof -
  have h: "justXPattern (TrimSpace ([''1.1 Intro'', ''X'', ''a) Foo''] ! 1))"
    by code_simp
  have l: "\<not> lastQuestionNum (initialState []) > 0" "lastQuestionNum (initialState []) \<le> 0"
    by (simp_all add: initialState_def)
  have n: "1 < length [''1.1 Intro'', ''X'', ''a) Foo'']"
    by simp
  from standalone_X_needs_open_question [OF h, of "initialState []"] l n
  have "step [''1.1 Intro'', ''X'', ''a) Foo''] 1 (initialState []) = initialState []"
    and "mainLoop [''1.1 Intro'', ''X'', ''a) Foo''] 1 (initialState []) =
     mainLoop [''1.1 Intro'', ''X'', ''a) Foo''] (1 + 1) (initialState [])"
    by (simp_all only: if_False simp_thms)
  with h show ?thesis by blast
qed

end
